theory Spec2Isabelle
  imports Complex_Main
begin

section \<open>A shallow embedding of the scraping service (server.js)\<close>

text \<open>
  The service accepts a scrape request, registers a job in an in-memory Job Store, drives a
  headless browser over up to \<open>maxPages\<close> result pages, extracts listing records from the
  anchors of each page, removes duplicates by link and stores the outcome in the job's entry.

  The browser is an external collaborator. Every call the code makes on it is answered by an
  environment record (\<open>env\<close>): whether the call throws, and what it returns. The code is then
  a deterministic function of that environment, of its arguments and of the state it starts
  from.
\<close>

subsection \<open>Strings\<close>

text \<open>
  A JavaScript string is a sequence of UTF-16 code units; the page texts are modelled as lists
  of code units, so that \<open>substring\<close>, \<open>includes\<close> and the regular expressions count what
  the source counts. Error messages, job identifiers and timestamps are opaque to the code and
  are plain strings.
\<close>

type_synonym jsstring = "nat list"

definition str :: "string \<Rightarrow> jsstring" where
  "str s = map of_char s"

definition is_digit :: "nat \<Rightarrow> bool" where
  "is_digit c = (48 \<le> c \<and> c \<le> 57)"

text \<open>The class \<open>\s\<close> of a JavaScript regular expression: white space and line terminators.\<close>

definition is_space :: "nat \<Rightarrow> bool" where
  "is_space c = (c \<in> {9, 10, 11, 12, 13, 32, 160, 5760, 8232, 8233, 8239, 8287, 12288, 65279}
                 \<or> (8192 \<le> c \<and> c \<le> 8202))"

definition comma :: nat where "comma = 44"
definition dot :: nat where "dot = 46"
definition newline :: nat where "newline = 10"

text \<open>
  The marker phrase of a category link, the literal of line 69 (U+0639 U+0642 U+0627 U+0631
  U+0627 U+062A, a space, U+0641 U+064A), and the unit marker of the area pattern (U+0645
  U+00B2).
\<close>

definition category_marker :: jsstring where
  "category_marker = [1593, 1602, 1575, 1585, 1575, 1578, 32, 1601, 1610]"

definition square_metres :: jsstring where
  "square_metres = [1605, 178]"

text \<open>\<open>String.prototype.includes\<close>: the pattern occurs at some position of the text.\<close>

fun includes_str :: "jsstring \<Rightarrow> jsstring \<Rightarrow> bool" where
  "includes_str [] p = (p = [])"
| "includes_str (c # cs) p = (take (length p) (c # cs) = p \<or> includes_str cs p)"

subsection \<open>The price pattern\<close>

text \<open>
  Line 66: \<^verbatim>\<open>/[0-9]{1,3}(?:,[0-9]{3})+(?:\.[0-9]+)?/\<close>. \<open>String.prototype.match\<close> without
  the global flag returns the leftmost match, and at each start position the first match in
  backtracking order: the greedy \<^verbatim>\<open>{1,3}\<close> tries three digits, then two, then one; the
  greedy group repetition takes as many groups as there are; the optional decimal part is
  taken when it is there. What follows the groups cannot fail, so the engine never gives a
  group back.
\<close>

text \<open>\<^verbatim>\<open>(?:,[0-9]{3})*\<close>, greedy: the groups matched and the rest of the text.\<close>

fun comma_groups :: "jsstring \<Rightarrow> jsstring \<times> jsstring" where
  "comma_groups (c # x # y # z # cs) =
     (if c = comma \<and> is_digit x \<and> is_digit y \<and> is_digit z
      then (case comma_groups cs of (g, r) \<Rightarrow> (c # x # y # z # g, r))
      else ([], c # x # y # z # cs))"
| "comma_groups cs = ([], cs)"

text \<open>\<^verbatim>\<open>(?:\.[0-9]+)?\<close>, greedy: the decimal part matched, empty when there is none.\<close>

fun decimal_part :: "jsstring \<Rightarrow> jsstring" where
  "decimal_part (c # d # cs) =
     (if c = dot \<and> is_digit d then c # takeWhile is_digit (d # cs) else [])"
| "decimal_part cs = []"

text \<open>One attempt of the engine at a start position, with exactly \<open>n\<close> leading digits.\<close>

definition price_with :: "nat \<Rightarrow> jsstring \<Rightarrow> jsstring option" where
  "price_with n s =
     (if n \<le> length s \<and> list_all is_digit (take n s)
      then (case comma_groups (drop n s) of
              (g, r) \<Rightarrow> if g = [] then None else Some (take n s @ g @ decimal_part r))
      else None)"

definition price_at :: "jsstring \<Rightarrow> jsstring option" where
  "price_at s =
     (case price_with 3 s of Some m \<Rightarrow> Some m
      | None \<Rightarrow> (case price_with 2 s of Some m \<Rightarrow> Some m
      | None \<Rightarrow> price_with 1 s))"

fun priceMatch :: "jsstring \<Rightarrow> jsstring option" where
  "priceMatch [] = None"
| "priceMatch (c # cs) =
     (case price_at (c # cs) of Some m \<Rightarrow> Some m | None \<Rightarrow> priceMatch cs)"

subsection \<open>The area pattern\<close>

text \<open>
  Line 75: a run of digits (the captured group), optional white space, the unit marker. At a
  start position the greedy digit run and the greedy white space are the only way to reach the
  marker: giving a digit back leaves a digit where the marker must begin.
\<close>

definition area_at :: "jsstring \<Rightarrow> jsstring option" where
  "area_at s =
     (let ds = takeWhile is_digit s;
          r = dropWhile is_space (dropWhile is_digit s)
      in if ds \<noteq> [] \<and> take (length square_metres) r = square_metres then Some ds else None)"

fun areaMatch :: "jsstring \<Rightarrow> jsstring option" where
  "areaMatch [] = None"
| "areaMatch (c # cs) =
     (case area_at (c # cs) of Some m \<Rightarrow> Some m | None \<Rightarrow> areaMatch cs)"

subsection \<open>The extractor\<close>

text \<open>
  What the in-page function reads of an anchor element: its \<open>innerText\<close>, the \<open>innerText\<close>
  of its first \<open>h3\<close> or \<open>h4\<close> descendant when there is one, and its resolved \<open>href\<close>.
\<close>

record anchor =
  innerText :: jsstring
  heading :: "jsstring option"
  href :: jsstring

record listing =
  title :: jsstring
  price :: jsstring
  area :: jsstring
  link :: jsstring

text \<open>
  Lines 63 to 77, the function mapped over the anchors; \<open>None\<close> is the \<open>null\<close> that line 78
  filters out. An empty heading text is falsy, so the title falls back to the first line of the
  text, cut to 100 code units.
\<close>

definition extractListing :: "anchor \<Rightarrow> listing option" where
  "extractListing a =
     (let text = innerText a in
      if includes_str text category_marker then None
      else (case priceMatch text of
              None \<Rightarrow> None
            | Some p \<Rightarrow>
                Some \<lparr>title = (case heading a of
                                Some h \<Rightarrow> if h \<noteq> [] then h
                                          else take 100 (takeWhile (\<lambda>c. c \<noteq> newline) text)
                              | None \<Rightarrow> take 100 (takeWhile (\<lambda>c. c \<noteq> newline) text)),
                      price = p,
                      area = (case areaMatch text of Some m \<Rightarrow> m | None \<Rightarrow> str ''N/A''),
                      link = href a\<rparr>))"

definition pageListings :: "anchor list \<Rightarrow> listing list" where
  "pageListings links = List.map_filter extractListing links"

subsection \<open>Deduplication\<close>

text \<open>
  Line 99 builds a \<open>Map\<close> from the pairs (link, record) and spreads its values. A JavaScript
  \<open>Map\<close> iterates in insertion order of its keys, and \<open>set\<close> on a key that is present
  replaces the value and keeps the key's place: an association list updated in place.
\<close>

fun map_set :: "('k \<times> 'v) list \<Rightarrow> 'k \<Rightarrow> 'v \<Rightarrow> ('k \<times> 'v) list" where
  "map_set [] k v = [(k, v)]"
| "map_set ((k', v') # m) k v =
     (if k' = k then (k', v) # m else (k', v') # map_set m k v)"

definition new_Map :: "('k \<times> 'v) list \<Rightarrow> ('k \<times> 'v) list" where
  "new_Map entries = foldl (\<lambda>m (k, v). map_set m k v) [] entries"

definition dedupe :: "listing list \<Rightarrow> listing list" where
  "dedupe allListings = map snd (new_Map (map (\<lambda>item. (link item, item)) allListings))"

subsection \<open>The Job Store\<close>

datatype job_status = Queued | Running | Completed | Failed

text \<open>
  A job's entry is a JavaScript object that every write replaces whole; the four writes of the
  code give it different fields. A field the object does not have is \<open>None\<close>; \<open>error\<close> is
  always there, \<open>null\<close> (\<open>None\<close>) or a message.
\<close>

record job =
  status :: job_status
  progress :: int
  currentPage :: "int option"
  totalPages :: "int option"
  count :: "nat option"
  data :: "listing list"
  error :: "string option"
  completedAt :: "string option"

datatype browser_state = NotLaunched | Open | Closed

text \<open>
  The state a run works on: the Job Store (line 12), the state of the browser the run
  launches, and, for the properties over time, the successive contents of the Job Store, one
  per write. A poll reads the Job Store between two writes, so what successive polls can
  observe is a subsequence, with repetitions, of \<open>history\<close>.
\<close>

record world =
  jobs :: "string \<rightharpoonup> job"
  history :: "(string \<rightharpoonup> job) list"
  browser :: browser_state

definition jobs_set :: "string \<Rightarrow> job \<Rightarrow> world \<Rightarrow> world" where
  "jobs_set jobId j w =
     w\<lparr>jobs := (jobs w)(jobId \<mapsto> j), history := history w @ [(jobs w)(jobId \<mapsto> j)]\<rparr>"

text \<open>The entries of one job in the contents recorded from \<open>w\<close> to \<open>w'\<close>, in order.\<close>

definition observed :: "string \<Rightarrow> world \<Rightarrow> world \<Rightarrow> job list" where
  "observed jobId w w' =
     List.map_filter (\<lambda>s. s jobId) (drop (length (history w)) (history w'))"

subsection \<open>The page driver\<close>

text \<open>
  The answers of the browser to the calls of one loop iteration, in the order of the calls:
  \<open>Some e\<close> or \<open>Inl e\<close> is a call that throws an error with message \<open>e\<close>.
\<close>

record page_env =
  waitForSelector :: "string option"
  settleDelay :: "string option"
  evaluate :: "string + anchor list"
  isVisible :: "string + bool"
  click :: "string option"
  loadDelay :: "string option"

record env =
  launch :: "string option"
  newPage :: "string option"
  goto :: "string \<Rightarrow> string option"
  pages :: "int \<Rightarrow> page_env"
  close :: "string option"
  toISOString :: string
  dateNow :: string
  randomSuffix :: string

subsection \<open>Progress\<close>

text \<open>
  Line 45, \<^verbatim>\<open>Math.round((i / maxPages) * 100)\<close>, is computed on JavaScript numbers: IEEE 754
  double precision, each operation rounding its exact result to the nearest double, a tie to
  the double with an even significand. A double is a rational number here, and \<open>fl\<close> is that
  rounding.

  A positive double is \<open>n * 2 ^ e\<close> with \<open>n < 2 ^ 53\<close> and \<open>- 1074 \<le> e \<le> 971\<close>, and
  \<open>2 ^ 52 \<le> n\<close> unless \<open>e = - 1074\<close>. So the exact value is scaled by a power of two into
  the range from \<open>2 ^ 52\<close> to \<open>2 ^ 53\<close> (as far as the exponent range allows), rounded to
  an integer, and scaled back. Results of magnitude \<open>2 ^ 1024\<close> and more, which a double
  cannot hold, are outside the model; line 45 is reached with \<open>1 \<le> i \<le> maxPages\<close> only
  (line 39), where the quotient is at most 1 and the product at most 100.
\<close>

text \<open>Rounding to the nearest integer, a tie to the even one.\<close>

definition rne :: "rat \<Rightarrow> int" where
  "rne q =
     (let n = \<lfloor>q\<rfloor>; r = q - of_int n
      in if r < 1 / 2 then n else if 1 / 2 < r then n + 1 else if even n then n else n + 1)"

text \<open>
  The number of doublings that bring a value below \<open>2 ^ 53\<close> up to \<open>2 ^ 52\<close>, at most 1074,
  and the number of halvings that bring a larger value below \<open>2 ^ 53\<close>, at most 971.
\<close>

function doublings :: "nat \<Rightarrow> rat \<Rightarrow> nat" where
  "doublings k x = (if 2 ^ 52 \<le> x \<or> 1074 \<le> k then k else doublings (Suc k) (2 * x))"
  by pat_completeness auto
termination
  by (relation "measure (\<lambda>(k, x). 1074 - k)") auto

declare doublings.simps [simp del]

function halvings :: "nat \<Rightarrow> rat \<Rightarrow> nat" where
  "halvings k x = (if x < 2 ^ 53 \<or> 971 \<le> k then k else halvings (Suc k) (x / 2))"
  by pat_completeness auto
termination
  by (relation "measure (\<lambda>(k, x). 971 - k)") auto

declare halvings.simps [simp del]

definition fl_pos :: "rat \<Rightarrow> rat" where
  "fl_pos x =
     (if x < 2 ^ 53
      then (let k = doublings 0 x in of_int (rne (x * 2 ^ k)) / 2 ^ k)
      else (let k = halvings 0 x in of_int (rne (x / 2 ^ k)) * 2 ^ k))"

definition fl :: "rat \<Rightarrow> rat" where
  "fl x = (if x = 0 then 0 else if 0 < x then fl_pos x else - fl_pos (- x))"

text \<open>
  \<open>Math.round\<close> returns the integer nearest to its argument, a tie towards plus infinity.
  The loop counter and the page limit are numbers that hold integers; below \<open>2 ^ 53\<close> every
  integer is a double.
\<close>

definition js_round :: "rat \<Rightarrow> int" where
  "js_round x = \<lfloor>x + 1 / 2\<rfloor>"

definition progress_of :: "int \<Rightarrow> int \<Rightarrow> int" where
  "progress_of i maxPages = js_round (fl (fl (of_int i / of_int maxPages) * 100))"

subsection \<open>The job runner\<close>

definition queued_record :: job where
  "queued_record =
     \<lparr>status = Queued, progress = 0, currentPage = None, totalPages = None, count = None,
      data = [], error = None, completedAt = None\<rparr>"

definition running_record :: job where
  "running_record =
     \<lparr>status = Running, progress = 0, currentPage = None, totalPages = None, count = None,
      data = [], error = None, completedAt = None\<rparr>"

definition page_record :: "int \<Rightarrow> int \<Rightarrow> job" where
  "page_record i maxPages =
     \<lparr>status = Running, progress = progress_of i maxPages, currentPage = Some i,
      totalPages = Some maxPages, count = None, data = [], error = None, completedAt = None\<rparr>"

definition completed_record :: "listing list \<Rightarrow> string \<Rightarrow> job" where
  "completed_record uniqueListings stamp =
     \<lparr>status = Completed, progress = 100, currentPage = None, totalPages = None,
      count = Some (length uniqueListings), data = uniqueListings, error = None,
      completedAt = Some stamp\<rparr>"

definition failed_record :: "string \<Rightarrow> job" where
  "failed_record message =
     \<lparr>status = Failed, progress = 0, currentPage = None, totalPages = None, count = None,
      data = [], error = Some message, completedAt = None\<rparr>"

text \<open>
  One iteration of the loop of lines 39 to 96: it throws, breaks out of the loop, or goes on to
  the next iteration; in each case with the listings accumulated so far.
\<close>

datatype step = Throw string | Break "listing list" | Continue "listing list"

definition page_step ::
  "env \<Rightarrow> string \<Rightarrow> int \<Rightarrow> int \<Rightarrow> listing list \<Rightarrow> world \<Rightarrow> step \<times> world" where
  "page_step e jobId maxPages i allListings w =
     (let w1 = jobs_set jobId (page_record i maxPages) w;
          p = pages e i;
          w2 = (case waitForSelector p of Some timeout \<Rightarrow> w1 | None \<Rightarrow> w1)
      in case settleDelay p of Some m \<Rightarrow> (Throw m, w2)
         | None \<Rightarrow>
        (case evaluate p of Inl m \<Rightarrow> (Throw m, w2)
         | Inr links \<Rightarrow>
        (let allListings' = allListings @ pageListings links
         in if i < maxPages
            then (case isVisible p of Inl m \<Rightarrow> (Throw m, w2)
                  | Inr visible \<Rightarrow>
                      if visible
                      then (case click p of Some m \<Rightarrow> (Throw m, w2)
                            | None \<Rightarrow>
                           (case loadDelay p of Some m \<Rightarrow> (Throw m, w2)
                            | None \<Rightarrow> (Continue allListings', w2)))
                      else (Break allListings', w2))
            else (Continue allListings', w2))))"

text \<open>
  The loop, from page \<open>i\<close>: \<open>Inl\<close> is the error thrown inside it, \<open>Inr\<close> the listings when
  it ends, by the loop condition or by the \<open>break\<close>.
\<close>

function scrape_pages ::
  "env \<Rightarrow> string \<Rightarrow> int \<Rightarrow> int \<Rightarrow> listing list \<Rightarrow> world \<Rightarrow> (string + listing list) \<times> world" where
  "scrape_pages e jobId maxPages i allListings w =
     (if i \<le> maxPages
      then (case page_step e jobId maxPages i allListings w of
              (Throw m, w') \<Rightarrow> (Inl m, w')
            | (Break ls, w') \<Rightarrow> (Inr ls, w')
            | (Continue ls, w') \<Rightarrow> scrape_pages e jobId maxPages (i + 1) ls w')
      else (Inr allListings, w))"
  by pat_completeness auto
termination
  by (relation "measure (\<lambda>(e, jobId, maxPages, i, allListings, w). nat (maxPages + 1 - i))") auto

declare scrape_pages.simps [simp del]

datatype promise = Resolved | Rejected string

text \<open>
  \<open>runScraper\<close>, lines 14 to 124. The launch of the browser and the opening of its page
  (lines 21 to 31) are before the \<open>try\<close>: an error there rejects the promise of the run and
  reaches neither the \<open>catch\<close> nor the \<open>finally\<close>. An error of \<open>browser.close()\<close> in the
  \<open>finally\<close> rejects the promise after the close has been asked for; \<open>Closed\<close> records
  that line 122 has been reached. The console output is left out: it changes no state and
  does not throw.
\<close>

definition runScraper :: "env \<Rightarrow> string \<Rightarrow> string \<Rightarrow> int \<Rightarrow> world \<Rightarrow> promise \<times> world" where
  "runScraper e jobId originUrl maxPages w =
     (let w0 = jobs_set jobId running_record w
      in case launch e of Some m \<Rightarrow> (Rejected m, w0)
         | None \<Rightarrow>
        (let w1 = w0\<lparr>browser := Open\<rparr>
         in case newPage e of Some m \<Rightarrow> (Rejected m, w1)
            | None \<Rightarrow>
           (let (r, w2) = (case goto e originUrl of Some m \<Rightarrow> (Inl m, w1)
                           | None \<Rightarrow> scrape_pages e jobId maxPages 1 [] w1);
                w3 = (case r of
                        Inr allListings \<Rightarrow>
                          jobs_set jobId (completed_record (dedupe allListings) (toISOString e)) w2
                      | Inl m \<Rightarrow> jobs_set jobId (failed_record m) w2);
                w4 = w3\<lparr>browser := Closed\<rparr>
            in case close e of Some m \<Rightarrow> (Rejected m, w4) | None \<Rightarrow> (Resolved, w4))))"

subsection \<open>The HTTP handlers\<close>

text \<open>
  The \<open>limit_pages\<close> field of a request body, documented as an integer: absent
  (\<open>undefined\<close>), \<open>null\<close> or a number. \<open>truthy\<close> is the test that \<open>||\<close> makes on it.
\<close>

datatype jsval = Undefined | Null | Num int

fun truthy :: "jsval \<Rightarrow> bool" where
  "truthy Undefined = False"
| "truthy Null = False"
| "truthy (Num n) = (n \<noteq> 0)"

record scrape_body =
  originUrl :: "string option"
  limit_pages :: jsval

text \<open>Line 140, \<^verbatim>\<open>limit_pages || 1\<close>.\<close>

fun maxPages_of :: "jsval \<Rightarrow> int" where
  "maxPages_of (Num n) = (if truthy (Num n) then n else 1)"
| "maxPages_of v = 1"

definition generateJobId :: "env \<Rightarrow> string" where
  "generateJobId e = ''job_'' @ dateNow e @ ''_'' @ randomSuffix e"

datatype response =
    BadRequest
  | Started string
  | NotFound
  | Pending job_status int "int option" "int option"
  | Final job_status int nat "listing list" "string option" "string option"

text \<open>
  \<open>POST /scrape\<close>, lines 132 to 156. The handler does not wait for the run; the run goes on
  in the background while other requests are served. The model runs it to its end at once:
  the writes to the job's entry and their order are those of the background run.
\<close>

definition post_scrape :: "env \<Rightarrow> scrape_body \<Rightarrow> world \<Rightarrow> response \<times> world" where
  "post_scrape e body w =
     (case originUrl body of
        None \<Rightarrow> (BadRequest, w)
      | Some url \<Rightarrow>
          if url = [] then (BadRequest, w)
          else (let jobId = generateJobId e;
                    maxPages = maxPages_of (limit_pages body);
                    w1 = jobs_set jobId queued_record w;
                    (_, w2) = runScraper e jobId url maxPages w1
                in (Started jobId, w2)))"

text \<open>
  The successive entries of the job that a submission creates, from the entry written at
  submission to the last entry its run writes.
\<close>

definition lifetime :: "env \<Rightarrow> scrape_body \<Rightarrow> world \<Rightarrow> job list" where
  "lifetime e body w = observed (generateJobId e) w (snd (post_scrape e body w))"

text \<open>\<open>GET /job/:jobId\<close>, lines 159 to 188, on the contents of the Job Store.\<close>

definition get_job :: "(string \<rightharpoonup> job) \<Rightarrow> string \<Rightarrow> response" where
  "get_job store jobId =
     (case store jobId of
        None \<Rightarrow> NotFound
      | Some job \<Rightarrow>
          if status job = Running \<or> status job = Queued
          then Pending (status job) (progress job) (currentPage job) (totalPages job)
          else Final (status job) (progress job)
                 (case count job of Some c \<Rightarrow> c | None \<Rightarrow> 0)
                 (data job) (error job) (completedAt job))"

subsection \<open>Notions of the specification\<close>

text \<open>
  The price-like token in the words of the specification: a run of one to three digits, then
  one or more comma-grouped segments of three digits, then optionally a decimal suffix. A
  text has such a token when the token occurs in it at some position.
\<close>

definition thousands_segment :: "jsstring \<Rightarrow> bool" where
  "thousands_segment g =
     (\<exists>x y z. g = [comma, x, y, z] \<and> is_digit x \<and> is_digit y \<and> is_digit z)"

definition decimal_suffix :: "jsstring \<Rightarrow> bool" where
  "decimal_suffix dec = (\<exists>f. dec = dot # f \<and> f \<noteq> [] \<and> list_all is_digit f)"

definition thousands_token :: "jsstring \<Rightarrow> bool" where
  "thousands_token tok =
     (\<exists>d gs dec. tok = d @ concat gs @ dec \<and> 1 \<le> length d \<and> length d \<le> 3
        \<and> list_all is_digit d \<and> gs \<noteq> [] \<and> list_all thousands_segment gs
        \<and> (dec = [] \<or> decimal_suffix dec))"

definition has_thousands_token :: "jsstring \<Rightarrow> bool" where
  "has_thousands_token t = (\<exists>pre tok post. t = pre @ tok @ post \<and> thousands_token tok)"

text \<open>
  Deduplication in the words of the specification: the links in first-seen order (each link
  stays where it first occurs, its later occurrences are removed), and the last record of the
  sequence that carries a given link.
\<close>

fun first_seen :: "'k list \<Rightarrow> 'k list" where
  "first_seen [] = []"
| "first_seen (k # ks) = k # filter (\<lambda>k'. k' \<noteq> k) (first_seen ks)"

definition last_with :: "listing list \<Rightarrow> jsstring \<Rightarrow> listing" where
  "last_with xs k = last (filter (\<lambda>x. link x = k) xs)"

text \<open>
  Two behaviours of a page: the iteration goes through and the next-page control is visible and
  works; the iteration goes through and no next-page control is visible. \<open>listings_of\<close> is what
  the extractor returns on the page.
\<close>

definition goes_on :: "page_env \<Rightarrow> bool" where
  "goes_on p =
     (settleDelay p = None \<and> \<not> isl (evaluate p) \<and> isVisible p = Inr True \<and> click p = None
      \<and> loadDelay p = None)"

definition no_next :: "page_env \<Rightarrow> bool" where
  "no_next p = (settleDelay p = None \<and> \<not> isl (evaluate p) \<and> isVisible p = Inr False)"

definition listings_of :: "page_env \<Rightarrow> listing list" where
  "listings_of p = (case evaluate p of Inr links \<Rightarrow> pageListings links | Inl m \<Rightarrow> [])"

text \<open>
  The shape of what one run writes to its job's entry: the \<open>running\<close> record, the per-page
  records of pages 1 to \<open>k\<close>, and at most one last record, \<open>completed\<close> or \<open>failed\<close>.
\<close>

definition run_shape :: "int \<Rightarrow> job list \<Rightarrow> bool" where
  "run_shape maxPages recs =
     (\<exists>k fin. recs = running_record # map (\<lambda>j. page_record j maxPages) [1..k] @ fin
        \<and> 0 \<le> k \<and> (k \<le> maxPages \<or> k = 0)
        \<and> (fin = [] \<or> (\<exists>ls stamp. fin = [completed_record ls stamp])
                     \<or> (\<exists>m. fin = [failed_record m])))"

subsection \<open>A concrete driver\<close>

text \<open>
  A browser in which every call succeeds, every page shows one listing and a visible
  next-page control; the examples below change single answers of it.
\<close>

definition demo_anchor :: anchor where
  "demo_anchor = \<lparr>innerText = str ''Apartment 300,000'', heading = None, href = str ''/a''\<rparr>"

definition demo_page :: page_env where
  "demo_page =
     \<lparr>waitForSelector = None, settleDelay = None, evaluate = Inr [demo_anchor],
      isVisible = Inr True, click = None, loadDelay = None\<rparr>"

definition demo_env :: env where
  "demo_env =
     \<lparr>launch = None, newPage = None, goto = (\<lambda>url. None), pages = (\<lambda>i. demo_page),
      close = None, toISOString = ''2024-01-01T00:00:00.000Z'', dateNow = ''1704067200000'',
      randomSuffix = ''k3j5x9q2a''\<rparr>"

definition empty_world :: world where
  "empty_world = \<lparr>jobs = Map.empty, history = [], browser = NotLaunched\<rparr>"

section \<open>The extractor\<close>

subsection \<open>The price pattern finds exactly the tokens of the specification\<close>

lemma comma_groups_sound:
  "comma_groups s = (g, r) \<Longrightarrow>
     s = g @ r \<and> (\<exists>gs. g = concat gs \<and> list_all thousands_segment gs \<and> (g \<noteq> [] \<longrightarrow> gs \<noteq> []))"
proof (induction s arbitrary: g r rule: comma_groups.induct)
  case (1 c x y z cs)
  show ?case
  proof (cases "c = comma \<and> is_digit x \<and> is_digit y \<and> is_digit z")
    case True
    obtain g' r' where gr: "comma_groups cs = (g', r')" by (cases "comma_groups cs")
    from "1.IH"[OF True gr] obtain gs where
      cs: "cs = g' @ r'" and gs: "g' = concat gs" "list_all thousands_segment gs" by blast
    from "1.prems" True gr have g: "g = c # x # y # z # g'" and r: "r = r'" by auto
    have seg: "thousands_segment [c, x, y, z]" using True by (auto simp: thousands_segment_def)
    have "g = concat ([c, x, y, z] # gs)" using g gs by simp
    moreover have "list_all thousands_segment ([c, x, y, z] # gs)" using seg gs by simp
    ultimately have "\<exists>gs. g = concat gs \<and> list_all thousands_segment gs \<and> (g \<noteq> [] \<longrightarrow> gs \<noteq> [])"
      by blast
    then show ?thesis using g r cs by simp
  next
    case False
    with "1.prems" have "g = []" "r = c # x # y # z # cs" by auto
    then show ?thesis by (auto intro: exI[of _ "[]"])
  qed
qed (auto intro: exI[of _ "[]"])

lemma decimal_part_sound:
  "\<exists>post. r = decimal_part r @ post \<and> (decimal_part r = [] \<or> decimal_suffix (decimal_part r))"
proof (cases r rule: decimal_part.cases)
  case (1 c d cs)
  show ?thesis
  proof (cases "c = dot \<and> is_digit d")
    case True
    have "r = decimal_part r @ dropWhile is_digit cs" using 1 True by simp
    moreover have "decimal_suffix (decimal_part r)"
      using 1 True by (auto simp: decimal_suffix_def list_all_iff dest: set_takeWhileD)
    ultimately show ?thesis by blast
  next
    case False
    then show ?thesis using 1 by auto
  qed
qed auto

lemma price_with_sound:
  assumes "price_with n s = Some m" "1 \<le> n" "n \<le> 3"
  shows "\<exists>post. s = m @ post \<and> thousands_token m"
proof -
  obtain g r where gr: "comma_groups (drop n s) = (g, r)" by (cases "comma_groups (drop n s)")
  from assms gr have n: "n \<le> length s" and dig: "list_all is_digit (take n s)"
    and g: "g \<noteq> []" and m: "m = take n s @ g @ decimal_part r"
    by (auto simp: price_with_def split: if_splits)
  from comma_groups_sound[OF gr] g obtain gs where
    d: "drop n s = g @ r" and gs: "g = concat gs" "list_all thousands_segment gs" "gs \<noteq> []" by blast
  from decimal_part_sound[of r] obtain post where
    post: "r = decimal_part r @ post" and dec: "decimal_part r = [] \<or> decimal_suffix (decimal_part r)"
    by blast
  have "s = take n s @ drop n s" by simp
  also have "\<dots> = m @ post" using d post m by (metis append.assoc)
  finally have s: "s = m @ post" .
  have "thousands_token m"
    unfolding thousands_token_def
    using m gs dig dec n assms(2,3) by (intro exI[of _ "take n s"] exI[of _ gs] exI[of _ "decimal_part r"]) auto
  with s show ?thesis by blast
qed

lemma price_at_sound:
  "price_at s = Some m \<Longrightarrow> \<exists>post. s = m @ post \<and> thousands_token m"
  by (auto simp: price_at_def split: option.splits dest: price_with_sound)

lemma priceMatch_sound:
  "priceMatch t = Some m \<Longrightarrow> \<exists>pre post. t = pre @ m @ post \<and> thousands_token m"
proof (induction t)
  case Nil
  then show ?case by simp
next
  case (Cons c cs)
  show ?case
  proof (cases "price_at (c # cs)")
    case None
    with Cons obtain pre post where "cs = pre @ m @ post" "thousands_token m" by auto
    then have "c # cs = (c # pre) @ m @ post" by simp
    then show ?thesis using \<open>thousands_token m\<close> by blast
  next
    case (Some m')
    with Cons.prems have "m' = m" by simp
    with Some price_at_sound[of "c # cs" m] obtain post where "c # cs = [] @ m @ post" "thousands_token m" by auto
    then show ?thesis by blast
  qed
qed

lemma price_with_1_complete:
  assumes "is_digit c" "is_digit x" "is_digit y" "is_digit z"
  shows "price_with 1 (c # comma # x # y # z # rest) \<noteq> None"
  using assms by (auto simp: price_with_def split: prod.splits)

lemma price_at_complete:
  assumes "is_digit c" "is_digit x" "is_digit y" "is_digit z"
  shows "price_at (c # comma # x # y # z # rest) \<noteq> None"
  using price_with_1_complete[OF assms, of rest] by (auto simp: price_at_def split: option.splits)

lemma priceMatch_append:
  "price_at s \<noteq> None \<Longrightarrow> s \<noteq> [] \<Longrightarrow> priceMatch (pre @ s) \<noteq> None"
proof (induction pre)
  case Nil
  then show ?case by (cases s) (auto split: option.splits)
next
  case (Cons p ps)
  then show ?case by (auto split: option.splits)
qed

lemma priceMatch_complete:
  assumes "has_thousands_token t" shows "priceMatch t \<noteq> None"
proof -
  from assms obtain pre d gs dec post where t: "t = pre @ (d @ concat gs @ dec) @ post"
    and d: "1 \<le> length d" "list_all is_digit d" and gs: "gs \<noteq> []" "list_all thousands_segment gs"
    unfolding has_thousands_token_def thousands_token_def by blast
  from d obtain d' c where dc: "d = d' @ [c]" "is_digit c"
    by (cases d rule: rev_cases) auto
  from gs obtain g gs' where g: "gs = g # gs'" "thousands_segment g" by (cases gs) auto
  then obtain x y z where xyz: "g = [comma, x, y, z]" "is_digit x" "is_digit y" "is_digit z"
    unfolding thousands_segment_def by blast
  have "t = (pre @ d') @ (c # comma # x # y # z # (concat gs' @ dec @ post))"
    using t dc g xyz by simp
  moreover have "price_at (c # comma # x # y # z # (concat gs' @ dec @ post)) \<noteq> None"
    using price_at_complete dc xyz by blast
  ultimately show ?thesis using priceMatch_append by (metis list.distinct(1))
qed

lemma priceMatch_None_iff: "priceMatch t = None \<longleftrightarrow> \<not> has_thousands_token t"
proof
  assume "priceMatch t = None"
  show "\<not> has_thousands_token t"
  proof
    assume "has_thousands_token t"
    from priceMatch_complete[OF this] \<open>priceMatch t = None\<close> show False by simp
  qed
next
  assume n: "\<not> has_thousands_token t"
  show "priceMatch t = None"
  proof (rule ccontr)
    assume "priceMatch t \<noteq> None"
    then obtain m where "priceMatch t = Some m" by auto
    from priceMatch_sound[OF this] n show False unfolding has_thousands_token_def by blast
  qed
qed

text \<open>\<open>includes_str\<close> is the substring relation.\<close>

lemma includes_str_iff: "includes_str t p \<longleftrightarrow> (\<exists>pre post. t = pre @ p @ post)"
proof (induction t)
  case Nil
  then show ?case by auto
next
  case (Cons c cs)
  have "take (length p) (c # cs) = p \<longleftrightarrow> (\<exists>post. c # cs = p @ post)"
    by (metis append_eq_conv_conj append_take_drop_id)
  moreover have "(\<exists>pre post. c # cs = pre @ p @ post) \<longleftrightarrow>
      (\<exists>post. c # cs = p @ post) \<or> (\<exists>pre post. cs = pre @ p @ post)"
  proof
    assume "\<exists>pre post. c # cs = pre @ p @ post"
    then obtain pre post where e: "c # cs = pre @ p @ post" by blast
    show "(\<exists>post. c # cs = p @ post) \<or> (\<exists>pre post. cs = pre @ p @ post)"
    proof (cases pre)
      case Nil
      with e show ?thesis by auto
    next
      case (Cons a pre')
      with e have "cs = pre' @ p @ post" by simp
      then show ?thesis by blast
    qed
  next
    assume "(\<exists>post. c # cs = p @ post) \<or> (\<exists>pre post. cs = pre @ p @ post)"
    then show "\<exists>pre post. c # cs = pre @ p @ post"
    proof
      assume "\<exists>post. c # cs = p @ post"
      then obtain post where "c # cs = [] @ p @ post" by auto
      then show ?thesis by blast
    next
      assume "\<exists>pre post. cs = pre @ p @ post"
      then obtain pre post where "c # cs = (c # pre) @ p @ post" by auto
      then show ?thesis by blast
    qed
  qed
  ultimately show ?case using Cons.IH by simp
qed

text \<open>
  C8. The extractor yields no record for an anchor whose text has no thousands-grouped numeric
  token or contains the category marker phrase, and it yields a record for every other anchor.
  The text "Apartment 5000" yields no record; the text "Apartment 300,000" yields a record whose
  price is "300,000".
\<close>

theorem extractor_rejects_without_token_or_with_marker:
  "(extractListing a = None \<longleftrightarrow>
      \<not> has_thousands_token (innerText a) \<or> includes_str (innerText a) category_marker)
   \<and> extractListing \<lparr>innerText = str ''Apartment 5000'', heading = h, href = u\<rparr> = None
   \<and> map_option price
         (extractListing \<lparr>innerText = str ''Apartment 300,000'', heading = h, href = u\<rparr>)
       = Some (str ''300,000'')"
proof (intro conjI)
  show "extractListing a = None \<longleftrightarrow>
      \<not> has_thousands_token (innerText a) \<or> includes_str (innerText a) category_marker"
    using priceMatch_None_iff[of "innerText a"]
    by (auto simp: extractListing_def Let_def split: option.splits)
  show "extractListing \<lparr>innerText = str ''Apartment 5000'', heading = h, href = u\<rparr> = None"
    by (simp add: extractListing_def Let_def str_def price_at_def price_with_def is_digit_def
        comma_def category_marker_def)
  show "map_option price
         (extractListing \<lparr>innerText = str ''Apartment 300,000'', heading = h, href = u\<rparr>)
       = Some (str ''300,000'')"
    by (simp add: extractListing_def Let_def str_def price_at_def price_with_def is_digit_def
        comma_def category_marker_def)
qed

text \<open>
  The theorem at two anchors: one whose text has no grouped token, and one whose text has a
  price and the category marker.
\<close>

theorem extractor_rejects_without_token_or_with_marker_witness:
  "\<not> has_thousands_token (str ''Apartment 5000'')
   \<and> extractListing \<lparr>innerText = str ''Apartment 5000'', heading = None, href = str ''/a''\<rparr> = None
   \<and> includes_str (str ''300,000 '' @ category_marker) category_marker
   \<and> extractListing \<lparr>innerText = str ''300,000 '' @ category_marker, heading = None, href = str ''/a''\<rparr> = None"
proof -
  have "priceMatch (str ''Apartment 5000'') = None"
    by (simp add: str_def price_at_def price_with_def is_digit_def comma_def)
  then have a: "\<not> has_thousands_token (str ''Apartment 5000'')"
    using priceMatch_None_iff by blast
  have b: "includes_str (str ''300,000 '' @ category_marker) category_marker"
    by (simp add: str_def category_marker_def)
  show ?thesis
    using a b
      extractor_rejects_without_token_or_with_marker
        [of "\<lparr>innerText = str ''Apartment 5000'', heading = None, href = str ''/a''\<rparr>"]
      extractor_rejects_without_token_or_with_marker
        [of "\<lparr>innerText = str ''300,000 '' @ category_marker, heading = None, href = str ''/a''\<rparr>"]
    by simp
qed

section \<open>Deduplication\<close>

lemma map_set_keys:
  "map fst (map_set m k v) = (if k \<in> fst ` set m then map fst m else map fst m @ [k])"
  by (induction m) force+

lemma map_set_map_of: "map_of (map_set m k v) = (map_of m)(k \<mapsto> v)"
  by (induction m) (auto simp: fun_eq_iff)

lemma first_seen_set: "set (first_seen ks) = set ks"
  by (induction ks) auto

lemma first_seen_distinct: "distinct (first_seen ks)"
  by (induction ks) (auto simp: first_seen_set)

lemma first_seen_snoc:
  "first_seen (ks @ [k]) = (if k \<in> set ks then first_seen ks else first_seen ks @ [k])"
  by (induction ks) auto

lemma first_seen_id: "distinct ks \<Longrightarrow> first_seen ks = ks"
proof (induction ks)
  case Nil
  then show ?case by simp
next
  case (Cons k ks)
  then have "filter (\<lambda>k'. k' \<noteq> k) ks = ks" by (auto intro: filter_True)
  with Cons show ?case by simp
qed

lemma new_Map_snoc: "new_Map (es @ [(k, v)]) = map_set (new_Map es) k v"
  by (simp add: new_Map_def)

lemma new_Map_keys: "map fst (new_Map es) = first_seen (map fst es)"
proof (induction es rule: rev_induct)
  case Nil
  then show ?case by (simp add: new_Map_def)
next
  case (snoc e es)
  obtain k v where e: "e = (k, v)" by (cases e)
  have "set (map fst (new_Map es)) = fst ` set es" using snoc by (simp add: first_seen_set)
  then have "k \<in> fst ` set (new_Map es) \<longleftrightarrow> k \<in> fst ` set es" by simp
  then show ?case using snoc e by (simp add: new_Map_snoc map_set_keys first_seen_snoc)
qed

lemma new_Map_map_of: "map_of (new_Map es) = map_of (rev es)"
proof (induction es rule: rev_induct)
  case Nil
  then show ?case by (simp add: new_Map_def)
next
  case (snoc e es)
  obtain k v where e: "e = (k, v)" by (cases e)
  show ?case using snoc e by (simp add: new_Map_snoc map_set_map_of fun_eq_iff)
qed

lemma map_of_rev_last:
  "k \<in> set (map link xs) \<Longrightarrow>
     map_of (rev (map (\<lambda>item. (link item, item)) xs)) k = Some (last_with xs k)"
proof (induction xs rule: rev_induct)
  case Nil
  then show ?case by simp
next
  case (snoc x xs)
  then show ?case by (auto simp: last_with_def)
qed

lemma dedupe_eq: "dedupe xs = map (last_with xs) (first_seen (map link xs))"
proof -
  let ?es = "map (\<lambda>item. (link item, item)) xs"
  have keys: "map fst (new_Map ?es) = first_seen (map link xs)"
    by (simp add: new_Map_keys comp_def)
  have dist: "distinct (map fst (new_Map ?es))" by (simp add: keys first_seen_distinct)
  have "\<forall>(k, v) \<in> set (new_Map ?es). v = last_with xs k"
  proof clarify
    fix k v assume kv: "(k, v) \<in> set (new_Map ?es)"
    then have "map_of (new_Map ?es) k = Some v" using dist by simp
    then have r: "map_of (rev ?es) k = Some v" by (simp add: new_Map_map_of)
    from kv have "k \<in> set (map fst (new_Map ?es))" by force
    then have "k \<in> set (map link xs)" by (simp add: keys first_seen_set)
    from map_of_rev_last[OF this] r show "v = last_with xs k" by simp
  qed
  then have "map snd (new_Map ?es) = map (last_with xs) (map fst (new_Map ?es))"
    by (auto simp: map_eq_conv)
  then show ?thesis by (simp add: dedupe_def keys)
qed

lemma link_last_with: "k \<in> set (map link xs) \<Longrightarrow> link (last_with xs k) = k"
proof -
  assume "k \<in> set (map link xs)"
  then have ne: "filter (\<lambda>x. link x = k) xs \<noteq> []" by (auto simp: filter_empty_conv)
  from last_in_set[OF ne] show ?thesis by (simp add: last_with_def)
qed

lemma dedupe_links: "map link (dedupe xs) = first_seen (map link xs)"
proof -
  have "map link (map (last_with xs) (first_seen (map link xs))) = map id (first_seen (map link xs))"
    unfolding map_map by (rule map_cong) (auto simp: first_seen_set link_last_with simp del: set_map)
  then show ?thesis by (simp add: dedupe_eq)
qed

lemma last_with_distinct:
  "distinct (map link xs) \<Longrightarrow> x \<in> set xs \<Longrightarrow> last_with xs (link x) = x"
proof -
  assume d: "distinct (map link xs)" and x: "x \<in> set xs"
  have "filter (\<lambda>y. link y = link x) xs = [x]"
    using d x
  proof (induction xs)
    case Nil
    then show ?case by simp
  next
    case (Cons a xs)
    then show ?case by (auto simp: filter_empty_conv) (metis (mono_tags) image_eqI)+
  qed
  then show ?thesis by (simp add: last_with_def)
qed

lemma dedupe_id: "distinct (map link xs) \<Longrightarrow> dedupe xs = xs"
proof -
  assume d: "distinct (map link xs)"
  have "dedupe xs = map (last_with xs) (map link xs)" using d by (simp add: dedupe_eq first_seen_id)
  also have "\<dots> = map id xs" unfolding map_map by (rule map_cong) (auto simp: last_with_distinct[OF d])
  finally show ?thesis by simp
qed

lemma first_seen_append:
  "first_seen (ps @ qs) = first_seen ps @ filter (\<lambda>x. x \<notin> set ps) (first_seen qs)"
proof (induction ps)
  case Nil
  then show ?case by simp
next
  case (Cons p ps)
  have "filter (\<lambda>k'. k' \<noteq> p) (filter (\<lambda>x. x \<notin> set ps) (first_seen qs))
      = filter (\<lambda>x. x \<notin> set (p # ps)) (first_seen qs)"
    by (auto simp: filter_filter intro: filter_cong)
  with Cons show ?case by simp
qed

lemma dedupe_at_first_occurrence:
  assumes "i < length xs" "distinct (map link (take (Suc i) xs))"
  shows "i < length (dedupe xs) \<and> dedupe xs ! i = last_with xs (link (xs ! i))"
proof -
  let ?ps = "map link (take (Suc i) xs)"
  let ?qs = "map link (drop (Suc i) xs)"
  have ks: "map link xs = ?ps @ ?qs" by (simp flip: map_append)
  have fs: "first_seen (map link xs) = ?ps @ filter (\<lambda>x. x \<notin> set ?ps) (first_seen ?qs)"
    unfolding ks first_seen_append using assms(2) by (simp only: first_seen_id)
  have len: "length ?ps = Suc i" using assms(1) by simp
  have i: "i < length (first_seen (map link xs))" unfolding fs using len by simp
  have "first_seen (map link xs) ! i = ?ps ! i" unfolding fs using len by (simp add: nth_append)
  also have "\<dots> = link (xs ! i)" using assms(1) by simp
  finally have k: "first_seen (map link xs) ! i = link (xs ! i)" .
  show ?thesis using i k by (simp add: dedupe_eq)
qed

text \<open>
  C6. For every sequence of listing records, \<open>dedupe\<close> returns one record per link, the links
  in the order of their first occurrences, and the record kept for a link is the last record of
  the input with that link: the values of the last occurrence at the place of the first. The
  place is the rank of the link's first occurrence among the first occurrences; where the
  records up to a first occurrence have distinct links, it is the index of that occurrence in
  the input.
\<close>

theorem dedupe_last_values_first_position:
  "dedupe xs = map (last_with xs) (first_seen (map link xs))
   \<and> map link (dedupe xs) = first_seen (map link xs)
   \<and> distinct (map link (dedupe xs))
   \<and> (i < length xs \<and> distinct (map link (take (Suc i) xs)) \<longrightarrow>
        i < length (dedupe xs) \<and> dedupe xs ! i = last_with xs (link (xs ! i)))"
proof (intro conjI impI)
  show "dedupe xs = map (last_with xs) (first_seen (map link xs))" by (rule dedupe_eq)
  show "map link (dedupe xs) = first_seen (map link xs)" by (rule dedupe_links)
  show "distinct (map link (dedupe xs))" by (simp add: dedupe_links first_seen_distinct)
next
  assume a: "i < length xs \<and> distinct (map link (take (Suc i) xs))"
  then show "i < length (dedupe xs)" using dedupe_at_first_occurrence[of i xs] by blast
  from a show "dedupe xs ! i = last_with xs (link (xs ! i))"
    using dedupe_at_first_occurrence[of i xs] by blast
qed

text \<open>
  The theorem at four records of which the second and the fourth share a link: the fourth
  record's values appear at index 1.
\<close>

theorem dedupe_last_values_first_position_witness:
  "(1::nat) < length
       [\<lparr>title = str ''Villa'', price = str ''900,000'', area = str ''N/A'', link = str ''/v''\<rparr>,
        \<lparr>title = str ''Flat'', price = str ''300,000'', area = str ''90'', link = str ''/a''\<rparr>,
        \<lparr>title = str ''Shop'', price = str ''120,000'', area = str ''N/A'', link = str ''/s''\<rparr>,
        \<lparr>title = str ''Flat, reduced'', price = str ''280,000'', area = str ''90'', link = str ''/a''\<rparr>]
   \<and> distinct (map link (take (Suc 1)
       [\<lparr>title = str ''Villa'', price = str ''900,000'', area = str ''N/A'', link = str ''/v''\<rparr>,
        \<lparr>title = str ''Flat'', price = str ''300,000'', area = str ''90'', link = str ''/a''\<rparr>,
        \<lparr>title = str ''Shop'', price = str ''120,000'', area = str ''N/A'', link = str ''/s''\<rparr>,
        \<lparr>title = str ''Flat, reduced'', price = str ''280,000'', area = str ''90'', link = str ''/a''\<rparr>]))
   \<and> dedupe
       [\<lparr>title = str ''Villa'', price = str ''900,000'', area = str ''N/A'', link = str ''/v''\<rparr>,
        \<lparr>title = str ''Flat'', price = str ''300,000'', area = str ''90'', link = str ''/a''\<rparr>,
        \<lparr>title = str ''Shop'', price = str ''120,000'', area = str ''N/A'', link = str ''/s''\<rparr>,
        \<lparr>title = str ''Flat, reduced'', price = str ''280,000'', area = str ''90'', link = str ''/a''\<rparr>] ! 1
      = \<lparr>title = str ''Flat, reduced'', price = str ''280,000'', area = str ''90'', link = str ''/a''\<rparr>
   \<and> dedupe
       [\<lparr>title = str ''Villa'', price = str ''900,000'', area = str ''N/A'', link = str ''/v''\<rparr>,
        \<lparr>title = str ''Flat'', price = str ''300,000'', area = str ''90'', link = str ''/a''\<rparr>,
        \<lparr>title = str ''Shop'', price = str ''120,000'', area = str ''N/A'', link = str ''/s''\<rparr>,
        \<lparr>title = str ''Flat, reduced'', price = str ''280,000'', area = str ''90'', link = str ''/a''\<rparr>]
      = [\<lparr>title = str ''Villa'', price = str ''900,000'', area = str ''N/A'', link = str ''/v''\<rparr>,
         \<lparr>title = str ''Flat, reduced'', price = str ''280,000'', area = str ''90'', link = str ''/a''\<rparr>,
         \<lparr>title = str ''Shop'', price = str ''120,000'', area = str ''N/A'', link = str ''/s''\<rparr>]"
  using dedupe_last_values_first_position[of "[\<lparr>title = str ''Villa'', price = str ''900,000'', area = str ''N/A'', link = str ''/v''\<rparr>,
        \<lparr>title = str ''Flat'', price = str ''300,000'', area = str ''90'', link = str ''/a''\<rparr>,
        \<lparr>title = str ''Shop'', price = str ''120,000'', area = str ''N/A'', link = str ''/s''\<rparr>,
        \<lparr>title = str ''Flat, reduced'', price = str ''280,000'', area = str ''90'', link = str ''/a''\<rparr>]" 1]
  by (simp add: last_with_def str_def)

text \<open>C7. Deduplication is idempotent.\<close>

theorem dedupe_idempotent: "dedupe (dedupe xs) = dedupe xs"
  by (rule dedupe_id) (simp add: dedupe_links first_seen_distinct)

section \<open>The job runner\<close>

subsection \<open>Rounding to doubles\<close>

lemma rne_of_int: "rne (of_int n) = n"
  by (simp add: rne_def)

lemma rne_bounds: "\<lfloor>q\<rfloor> \<le> rne q \<and> rne q \<le> \<lfloor>q\<rfloor> + 1"
  by (simp add: rne_def Let_def)

lemma rne_mono:
  assumes "x \<le> y" shows "rne x \<le> rne y"
proof -
  have fm: "\<lfloor>x\<rfloor> \<le> \<lfloor>y\<rfloor>" using assms by (rule floor_mono)
  show ?thesis
  proof (cases "\<lfloor>x\<rfloor> = \<lfloor>y\<rfloor>")
    case False
    with fm have "\<lfloor>x\<rfloor> + 1 \<le> \<lfloor>y\<rfloor>" by simp
    with rne_bounds[of x] rne_bounds[of y] show ?thesis by linarith
  next
    case True
    have "x - of_int \<lfloor>y\<rfloor> \<le> y - of_int \<lfloor>y\<rfloor>" using assms by simp
    then show ?thesis unfolding rne_def Let_def True by (auto split: if_splits)
  qed
qed

lemma doublings_ge: "k \<le> doublings k x"
proof (induction k x rule: doublings.induct)
  case (1 k x)
  show ?case
  proof (cases "2 ^ 52 \<le> x \<or> 1074 \<le> k")
    case True
    then show ?thesis by (subst doublings.simps) simp
  next
    case False
    with "1.IH" have "Suc k \<le> doublings (Suc k) (2 * x)" by simp
    with False show ?thesis by (subst doublings.simps) simp
  qed
qed

lemma doublings_le: "k \<le> 1074 \<Longrightarrow> doublings k x \<le> 1074"
proof (induction k x rule: doublings.induct)
  case (1 k x)
  show ?case
  proof (cases "2 ^ 52 \<le> x \<or> 1074 \<le> k")
    case True
    then show ?thesis using "1.prems" by (subst doublings.simps) simp
  next
    case False
    with "1.IH" have "doublings (Suc k) (2 * x) \<le> 1074" by simp
    with False show ?thesis by (subst doublings.simps) simp
  qed
qed

text \<open>The scaled value stays below \<open>2 ^ 53\<close>, and reaches \<open>2 ^ 52\<close> unless the scale is the least one.\<close>

lemma doublings_scaled:
  assumes "x < 2 ^ 53"
  shows "x * 2 ^ (doublings k x - k) < 2 ^ 53
       \<and> (doublings k x < 1074 \<longrightarrow> 2 ^ 52 \<le> x * 2 ^ (doublings k x - k))"
  using assms
proof (induction k x rule: doublings.induct)
  case (1 k x)
  show ?case
  proof (cases "2 ^ 52 \<le> x \<or> 1074 \<le> k")
    case True
    then have "doublings k x = k" by (subst doublings.simps) simp
    with True "1.prems" show ?thesis by auto
  next
    case False
    then have d: "doublings k x = doublings (Suc k) (2 * x)" by (subst doublings.simps) simp
    have "2 * x < 2 ^ 53" using False by simp
    with "1.IH" False have ih: "2 * x * 2 ^ (doublings (Suc k) (2 * x) - Suc k) < 2 ^ 53
       \<and> (doublings (Suc k) (2 * x) < 1074 \<longrightarrow> 2 ^ 52 \<le> 2 * x * 2 ^ (doublings (Suc k) (2 * x) - Suc k))"
      by simp
    have ge: "Suc k \<le> doublings (Suc k) (2 * x)" by (rule doublings_ge)
    define n where "n = doublings (Suc k) (2 * x) - Suc k"
    have s: "doublings (Suc k) (2 * x) - k = Suc n" using ge by (simp add: n_def)
    have e: "x * 2 ^ Suc n = 2 * x * 2 ^ n" by simp
    from ih have a: "2 * x * 2 ^ n < 2 ^ 53"
      and b: "doublings (Suc k) (2 * x) < 1074 \<longrightarrow> 2 ^ 52 \<le> 2 * x * 2 ^ n"
      unfolding n_def by blast+
    show ?thesis unfolding d s e using a b by blast
  qed
qed

lemma doublings_antimono:
  assumes "x \<le> y" shows "doublings k y \<le> doublings k x"
  using assms
proof (induction k x arbitrary: y rule: doublings.induct)
  case (1 k x)
  show ?case
  proof (cases "2 ^ 52 \<le> y \<or> 1074 \<le> k")
    case True
    then have "doublings k y = k" by (subst doublings.simps) simp
    then show ?thesis using doublings_ge[of k x] by simp
  next
    case False
    then have x: "\<not> (2 ^ 52 \<le> x \<or> 1074 \<le> k)" using "1.prems" by auto
    have "2 * x \<le> 2 * y" using "1.prems" by simp
    with "1.IH" x have "doublings (Suc k) (2 * y) \<le> doublings (Suc k) (2 * x)" by simp
    moreover have "doublings k y = doublings (Suc k) (2 * y)" using False by (subst doublings.simps) simp
    moreover have "doublings k x = doublings (Suc k) (2 * x)" using x by (subst doublings.simps) simp
    ultimately show ?thesis by simp
  qed
qed

lemma doublings_eq:
  "2 ^ 52 \<le> x * 2 ^ j \<Longrightarrow> x * 2 ^ j < 2 ^ 53 \<Longrightarrow> k + j \<le> 1074 \<Longrightarrow> doublings k x = k + j"
proof (induction j arbitrary: k x)
  case 0
  then show ?case by (subst doublings.simps) simp
next
  case (Suc j)
  have "(2::rat) ^ 1 \<le> 2 ^ Suc j" by (rule power_increasing) simp_all
  then have two: "(2::rat) \<le> 2 ^ Suc j" by simp
  have "0 \<le> x \<or> x < 0" by auto
  have x: "x < 2 ^ 52"
  proof (rule ccontr)
    assume "\<not> x < 2 ^ 52"
    then have "2 ^ 52 \<le> x" by simp
    then have "2 ^ 52 * 2 \<le> x * 2 ^ Suc j" using two by (intro mult_mono) simp_all
    with Suc.prems(2) show False by simp
  qed
  have "doublings k x = doublings (Suc k) (2 * x)"
    using x Suc.prems(3) by (subst doublings.simps) simp
  also have "\<dots> = Suc k + j" using Suc.prems by (intro Suc.IH) (simp_all add: mult.assoc mult.left_commute)
  finally show ?case by simp
qed

lemma fl_pos_small: "x < 2 ^ 53 \<Longrightarrow> fl_pos x = of_int (rne (x * 2 ^ doublings 0 x)) / 2 ^ doublings 0 x"
  by (simp add: fl_pos_def Let_def)

lemma fl_pos_exact:
  assumes "(2::rat) ^ 52 \<le> of_int n * 2 ^ j" "of_int n * 2 ^ j < (2::rat) ^ 53" "j \<le> 1074"
  shows "fl_pos (of_int n) = of_int n"
proof -
  have d: "doublings 0 (of_int n) = j" using doublings_eq[OF assms(1,2), of 0] assms(3) by simp
  have "(1::rat) \<le> 2 ^ j" by simp
  have "(0::rat) < 2 ^ 52" by simp
  then have "(0::rat) < of_int n * 2 ^ j" using assms(1) by (rule less_le_trans)
  then have pos: "(0::rat) < of_int n" by (simp add: zero_less_mult_iff)
  have "(of_int n :: rat) * 1 \<le> of_int n * 2 ^ j" using pos by (intro mult_left_mono) simp_all
  then have lt: "(of_int n :: rat) < 2 ^ 53" using assms(2) by simp
  have "of_int n * (2::rat) ^ j = of_int (n * 2 ^ j)" by simp
  then have "rne (of_int n * 2 ^ j) = n * 2 ^ j" by (simp only: rne_of_int)
  then show ?thesis by (simp add: fl_pos_small[OF lt] d)
qed

lemma fl_1: "fl 1 = 1"
  using fl_pos_exact[of 1 52] by (simp add: fl_def)

lemma fl_100: "fl 100 = 100"
  using fl_pos_exact[of 100 46] by (simp add: fl_def)

lemma fl_pos_nonneg: "0 < x \<Longrightarrow> x < 2 ^ 53 \<Longrightarrow> 0 \<le> fl_pos x"
proof -
  assume x: "0 < x" "x < 2 ^ 53"
  have "rne 0 \<le> rne (x * 2 ^ doublings 0 x)" using x(1) by (intro rne_mono) simp
  then have "0 \<le> rne (x * 2 ^ doublings 0 x)" using rne_of_int[of 0] by simp
  then show ?thesis by (simp add: fl_pos_small[OF x(2)])
qed

lemma fl_pos_mono:
  assumes "0 < x" "x \<le> y" "y < 2 ^ 53"
  shows "fl_pos x \<le> fl_pos y"
proof -
  let ?kx = "doublings 0 x" and ?ky = "doublings 0 y"
  have xl: "x < 2 ^ 53" using assms by simp
  have k: "?ky \<le> ?kx" by (rule doublings_antimono[OF assms(2)])
  show ?thesis
  proof (cases "?ky = ?kx")
    case True
    have "x * 2 ^ ?kx \<le> y * 2 ^ ?kx" using assms(2) by simp
    then have "rne (x * 2 ^ ?kx) \<le> rne (y * 2 ^ ?kx)" by (rule rne_mono)
    then show ?thesis by (simp add: fl_pos_small[OF xl] fl_pos_small[OF assms(3)] True divide_right_mono)
  next
    case False
    with k have lt: "?ky < ?kx" by simp
    have "?kx \<le> 1074" by (rule doublings_le) simp
    with lt have "?ky < 1074" by simp
    with doublings_scaled[OF assms(3), of 0] have lo: "2 ^ 52 \<le> y * 2 ^ ?ky" by simp
    from doublings_scaled[OF xl, of 0] have hi: "x * 2 ^ ?kx < 2 ^ 53" by simp
    have "rne (of_int (2 ^ 52)) \<le> rne (y * 2 ^ ?ky)" using lo by (intro rne_mono) simp
    then have a: "2 ^ 52 \<le> rne (y * 2 ^ ?ky)" by (simp only: rne_of_int)
    have "rne (x * 2 ^ ?kx) \<le> rne (of_int (2 ^ 53))" using hi by (intro rne_mono) simp
    then have b: "rne (x * 2 ^ ?kx) \<le> 2 ^ 53" by (simp only: rne_of_int)
    have "fl_pos x \<le> 2 ^ 53 / 2 ^ ?kx"
    proof -
      have "(of_int (rne (x * 2 ^ ?kx)) :: rat) \<le> of_int (2 ^ 53)" using b by (simp only: of_int_le_iff)
      then show ?thesis by (simp add: fl_pos_small[OF xl] divide_right_mono)
    qed
    also have "\<dots> \<le> 2 ^ 53 / 2 ^ Suc ?ky"
    proof -
      have "(2::rat) ^ Suc ?ky \<le> 2 ^ ?kx" using lt by (intro power_increasing) simp_all
      then show ?thesis by (intro divide_left_mono) simp_all
    qed
    also have "\<dots> = 2 ^ 52 / 2 ^ ?ky" by simp
    also have "\<dots> \<le> fl_pos y"
    proof -
      have "(of_int (2 ^ 52) :: rat) \<le> of_int (rne (y * 2 ^ ?ky))" using a by (simp only: of_int_le_iff)
      then show ?thesis by (simp add: fl_pos_small[OF assms(3)] divide_right_mono)
    qed
    finally show ?thesis .
  qed
qed

lemma fl_mono:
  assumes "0 \<le> x" "x \<le> y" "y < 2 ^ 53"
  shows "fl x \<le> fl y"
proof (cases "x = 0")
  case True
  show ?thesis
  proof (cases "y = 0")
    case True
    with \<open>x = 0\<close> show ?thesis by simp
  next
    case False
    with assms True have "0 < y" by simp
    with fl_pos_nonneg[OF this assms(3)] True show ?thesis by (simp add: fl_def)
  qed
next
  case False
  with assms have x: "0 < x" and y: "0 < y" by simp_all
  from fl_pos_mono[OF x assms(2,3)] x y show ?thesis by (simp add: fl_def)
qed

lemma fl_0: "fl 0 = 0"
  by (simp add: fl_def)

text \<open>The rounding of a value whose scale and nearest integer are known.\<close>

lemma rne_near:
  assumes "of_int n - 1 / 2 < q" "q < of_int n + 1 / 2"
  shows "rne q = n"
proof -
  have "\<lfloor>q\<rfloor> = n \<or> \<lfloor>q\<rfloor> = n - 1"
  proof -
    have "of_int (n - 1) \<le> q" using assms(1) by simp
    then have "n - 1 \<le> \<lfloor>q\<rfloor>" by (simp only: le_floor_iff)
    moreover have "q < of_int (n + 1)" using assms(2) by simp
    then have "\<lfloor>q\<rfloor> < n + 1" by (simp only: floor_less_iff)
    ultimately show ?thesis by linarith
  qed
  then show ?thesis
  proof
    assume f: "\<lfloor>q\<rfloor> = n"
    then have "q - of_int n < 1 / 2" using assms(2) by simp
    then show ?thesis by (simp add: rne_def Let_def f)
  next
    assume f: "\<lfloor>q\<rfloor> = n - 1"
    have "1 / 2 < q - of_int (n - 1)" using assms(1) by simp
    then show ?thesis by (simp add: rne_def Let_def f)
  qed
qed

lemma fl_eval:
  assumes "2 ^ 52 \<le> x * 2 ^ j" "x * 2 ^ j < 2 ^ 53" "j \<le> 1074"
    and "of_int n - 1 / 2 < x * 2 ^ j" "x * 2 ^ j < of_int n + 1 / 2"
  shows "fl x = of_int n / 2 ^ j"
proof -
  have d: "doublings 0 x = j" using doublings_eq[OF assms(1,2), of 0] assms(3) by simp
  have "(0::rat) < 2 ^ 52" by simp
  then have "0 < x * 2 ^ j" using assms(1) by (rule less_le_trans)
  then have pos: "0 < x" by (simp add: zero_less_mult_iff)
  have "x * 1 \<le> x * 2 ^ j" using pos by (intro mult_left_mono) simp_all
  then have lt: "x < 2 ^ 53" using assms(2) by simp
  have "rne (x * 2 ^ j) = n" by (rule rne_near[OF assms(4,5)])
  then show ?thesis using pos by (simp add: fl_def fl_pos_small[OF lt] d)
qed

subsection \<open>Progress values\<close>

text \<open>
  Where double precision and exact arithmetic part: 23 pages of 40 are 57.5 percent, which
  exact arithmetic rounds to 58; the doubles give 57.49999999999999 and the code writes 57.
\<close>

lemma progress_of_23_40: "progress_of 23 40 = 57"
proof -
  have a: "fl (23 / 40) = 5179139571476070 / 2 ^ 53"
    using fl_eval[of "23 / 40" 53 5179139571476070] by simp
  have b: "fl (5179139571476070 / 2 ^ 53 * 100) = 8092405580431359 / 2 ^ 47"
    using fl_eval[of "5179139571476070 / 2 ^ 53 * 100" 47 8092405580431359] by simp
  have "(of_int 23 / of_int 40 :: rat) = 23 / 40" by simp
  then have "progress_of 23 40 = \<lfloor>fl (fl (23 / 40) * 100) + 1 / 2\<rfloor>"
    by (simp only: progress_of_def js_round_def)
  also have "\<dots> = \<lfloor>(8092405580431359 / 2 ^ 47 + 1 / 2 :: rat)\<rfloor>" by (simp only: a b)
  also have "\<dots> = 57" by (rule floor_unique) simp_all
  finally show ?thesis .
qed

lemma progress_of_29_200: "progress_of 29 200 = 14"
proof -
  have a: "fl (29 / 200) = 5224175567749775 / 2 ^ 55"
    using fl_eval[of "29 / 200" 55 5224175567749775] by simp
  have b: "fl (5224175567749775 / 2 ^ 55 * 100) = 8162774324609023 / 2 ^ 49"
    using fl_eval[of "5224175567749775 / 2 ^ 55 * 100" 49 8162774324609023] by simp
  have "(of_int 29 / of_int 200 :: rat) = 29 / 200" by simp
  then have "progress_of 29 200 = \<lfloor>fl (fl (29 / 200) * 100) + 1 / 2\<rfloor>"
    by (simp only: progress_of_def js_round_def)
  also have "\<dots> = \<lfloor>(8162774324609023 / 2 ^ 49 + 1 / 2 :: rat)\<rfloor>" by (simp only: a b)
  also have "\<dots> = 14" by (rule floor_unique) simp_all
  finally show ?thesis .
qed

lemma progress_of_1_3: "progress_of 1 3 = 33"
proof -
  have a: "fl (1 / 3) = 6004799503160661 / 2 ^ 54"
    using fl_eval[of "1 / 3" 54 6004799503160661] by simp
  have b: "fl (6004799503160661 / 2 ^ 54 * 100) = 4691249611844266 / 2 ^ 47"
    using fl_eval[of "6004799503160661 / 2 ^ 54 * 100" 47 4691249611844266] by simp
  have "(of_int 1 / of_int 3 :: rat) = 1 / 3" by simp
  then have "progress_of 1 3 = \<lfloor>fl (fl (1 / 3) * 100) + 1 / 2\<rfloor>"
    by (simp only: progress_of_def js_round_def)
  also have "\<dots> = \<lfloor>(4691249611844266 / 2 ^ 47 + 1 / 2 :: rat)\<rfloor>" by (simp only: a b)
  also have "\<dots> = 33" by (rule floor_unique) simp_all
  finally show ?thesis .
qed

lemma progress_of_bounds:
  assumes "1 \<le> i" "i \<le> m"
  shows "0 \<le> progress_of i m \<and> progress_of i m \<le> 100"
proof -
  let ?q = "of_int i / of_int m :: rat"
  have m: "(0 :: rat) < of_int m" using assms by simp
  have q0: "0 \<le> ?q" using assms by simp
  have "(of_int i :: rat) \<le> of_int m" using assms by simp
  then have q1: "?q \<le> 1" using m by (simp add: divide_le_eq_1)
  have a0: "0 \<le> fl ?q" using fl_mono[of 0 ?q] q0 q1 by (simp add: fl_0)
  have a1: "fl ?q \<le> 1" using fl_mono[of ?q 1] q0 q1 by (simp add: fl_1)
  have b0: "0 \<le> fl (fl ?q * 100)" using fl_mono[of 0 "fl ?q * 100"] a0 a1 by (simp add: fl_0)
  have b1: "fl (fl ?q * 100) \<le> 100" using fl_mono[of "fl ?q * 100" 100] a0 a1 by (simp add: fl_100)
  have "0 \<le> \<lfloor>fl (fl ?q * 100) + 1 / 2\<rfloor>" using b0 by simp
  moreover have "fl (fl ?q * 100) + 1 / 2 < of_int 101" using b1 by simp
  then have "\<lfloor>fl (fl ?q * 100) + 1 / 2\<rfloor> < 101" by (simp only: floor_less_iff)
  ultimately show ?thesis by (simp add: progress_of_def js_round_def)
qed

lemma progress_of_mono:
  assumes "0 < m" "1 \<le> i" "i \<le> j" "j \<le> m" shows "progress_of i m \<le> progress_of j m"
proof -
  let ?p = "of_int i / of_int m :: rat" and ?q = "of_int j / of_int m :: rat"
  have m: "(0 :: rat) < of_int m" using assms by simp
  have p0: "0 \<le> ?p" using assms by simp
  have pq: "?p \<le> ?q" using assms by (simp add: divide_right_mono)
  have "(of_int j :: rat) \<le> of_int m" using assms by simp
  then have q1: "?q \<le> 1" using m by (simp add: divide_le_eq_1)
  have a: "fl ?p \<le> fl ?q" using fl_mono[of ?p ?q] p0 pq q1 by simp
  have a0: "0 \<le> fl ?p" using fl_mono[of 0 ?p] p0 pq q1 by (simp add: fl_0)
  have a1: "fl ?q \<le> 1" using fl_mono[of ?q 1] p0 pq q1 by (simp add: fl_1)
  have "fl (fl ?p * 100) \<le> fl (fl ?q * 100)" using fl_mono[of "fl ?p * 100" "fl ?q * 100"] a a0 a1 by simp
  then have "fl (fl ?p * 100) + 1 / 2 \<le> fl (fl ?q * 100) + 1 / 2" by simp
  then show ?thesis unfolding progress_of_def js_round_def by (rule floor_mono)
qed

lemma progress_of_full: "0 < m \<Longrightarrow> progress_of m m = 100"
proof -
  assume "0 < m"
  then have "(of_int m / of_int m :: rat) = 1" by simp
  then have "progress_of m m = \<lfloor>(100 :: rat) + 1 / 2\<rfloor>"
    by (simp add: progress_of_def js_round_def fl_1 fl_100)
  also have "\<dots> = 100" by (rule floor_unique) simp_all
  finally show ?thesis .
qed

lemma page_step_world: "snd (page_step e jobId m i acc w) = jobs_set jobId (page_record i m) w"
  by (simp add: page_step_def Let_def split: option.splits sum.splits)

lemma scrape_pages_history:
  "\<exists>k. i - 1 \<le> k \<and> (k \<le> m \<or> k = i - 1) \<and>
       history (snd (scrape_pages e jobId m i acc w)) =
         history w @ map (\<lambda>j. (jobs w)(jobId \<mapsto> page_record j m)) [i..k] \<and>
       jobs (snd (scrape_pages e jobId m i acc w)) =
         (if k < i then jobs w else (jobs w)(jobId \<mapsto> page_record k m)) \<and>
       browser (snd (scrape_pages e jobId m i acc w)) = browser w"
proof (induction e jobId m i acc w rule: scrape_pages.induct)
  case (1 e jobId m i acc w)
  let ?P = "\<lambda>w' k. i - 1 \<le> k \<and> (k \<le> m \<or> k = i - 1) \<and>
       history w' = history w @ map (\<lambda>j. (jobs w)(jobId \<mapsto> page_record j m)) [i..k] \<and>
       jobs w' = (if k < i then jobs w else (jobs w)(jobId \<mapsto> page_record k m)) \<and>
       browser w' = browser w"
  show ?case
  proof (cases "i \<le> m")
    case False
    then have "scrape_pages e jobId m i acc w = (Inr acc, w)" by (simp add: scrape_pages.simps)
    then have "?P (snd (scrape_pages e jobId m i acc w)) (i - 1)" by simp
    then show ?thesis by blast
  next
    case True
    obtain st w1 where ps: "page_step e jobId m i acc w = (st, w1)" by (cases "page_step e jobId m i acc w")
    have w1: "w1 = jobs_set jobId (page_record i m) w" using page_step_world[of e jobId m i acc w] ps by simp
    have one: "?P w1 i" using True by (simp add: w1 jobs_set_def)
    show ?thesis
    proof (cases st)
      case (Throw msg)
      then have "scrape_pages e jobId m i acc w = (Inl msg, w1)" using True ps by (simp add: scrape_pages.simps)
      with one show ?thesis by (metis snd_conv)
    next
      case (Break ls)
      then have "scrape_pages e jobId m i acc w = (Inr ls, w1)" using True ps by (simp add: scrape_pages.simps)
      with one show ?thesis by (metis snd_conv)
    next
      case (Continue ls)
      then have eq: "scrape_pages e jobId m i acc w = scrape_pages e jobId m (i + 1) ls w1"
        using True ps by (simp add: scrape_pages.simps)
      let ?w' = "snd (scrape_pages e jobId m (i + 1) ls w1)"
      from "1.IH"[OF True ps[symmetric] Continue] obtain k where
        ih: "i + 1 - 1 \<le> k \<and> (k \<le> m \<or> k = i + 1 - 1) \<and>
          history ?w' = history w1 @ map (\<lambda>j. (jobs w1)(jobId \<mapsto> page_record j m)) [i + 1..k] \<and>
          jobs ?w' = (if k < i + 1 then jobs w1 else (jobs w1)(jobId \<mapsto> page_record k m)) \<and>
          browser ?w' = browser w1" by blast
      then have k: "i \<le> k" "k \<le> m \<or> k = i"
        and h: "history ?w' = history w1 @ map (\<lambda>j. (jobs w1)(jobId \<mapsto> page_record j m)) [i + 1..k]"
        and j: "jobs ?w' = (if k < i + 1 then jobs w1 else (jobs w1)(jobId \<mapsto> page_record k m))"
        and b: "browser ?w' = browser w1" by simp_all
      have up: "[i..k] = i # [i + 1..k]" using k(1) by (simp add: upto_rec1)
      have "?P ?w' k"
        using k True h j b by (auto simp: w1 jobs_set_def up)
      then show ?thesis unfolding eq by blast
    qed
  qed
qed

subsection \<open>What a run writes to the Job Store\<close>

lemma observed_append:
  "history w' = history w @ map (\<lambda>j. (jobs w)(jobId \<mapsto> j)) recs \<Longrightarrow> observed jobId w w' = recs"
  by (simp add: observed_def List.map_filter_def comp_def)

lemma runScraper_history:
  "\<exists>recs. history (snd (runScraper e jobId url m w)) = history w @ map (\<lambda>j. (jobs w)(jobId \<mapsto> j)) recs
      \<and> jobs (snd (runScraper e jobId url m w)) = (jobs w)(jobId \<mapsto> last recs)
      \<and> run_shape m recs"
proof -
  let ?w0 = "jobs_set jobId running_record w"
  let ?w1 = "?w0\<lparr>browser := Open\<rparr>"
  let ?S = "\<lambda>w' recs. history w' = history w @ map (\<lambda>j. (jobs w)(jobId \<mapsto> j)) recs
      \<and> jobs w' = (jobs w)(jobId \<mapsto> last recs) \<and> run_shape m recs"
  have base: "?S ?w0 [running_record]" "?S ?w1 [running_record]"
    by (auto simp: jobs_set_def run_shape_def intro!: exI[of _ 0])
  show ?thesis
  proof (cases "launch e")
    case (Some msg)
    then have "snd (runScraper e jobId url m w) = ?w0" by (simp add: runScraper_def Let_def)
    with base(1) show ?thesis by metis
  next
    case None
    note launch = this
    show ?thesis
    proof (cases "newPage e")
      case (Some msg)
      then have "snd (runScraper e jobId url m w) = ?w1" using launch by (simp add: runScraper_def Let_def)
      with base(2) show ?thesis by metis
    next
      case None
      obtain r w2 where rw: "(case goto e url of Some msg \<Rightarrow> (Inl msg, ?w1)
                           | None \<Rightarrow> scrape_pages e jobId m 1 [] ?w1) = (r, w2)"
        by (cases "case goto e url of Some msg \<Rightarrow> (Inl msg, ?w1)
                           | None \<Rightarrow> scrape_pages e jobId m 1 [] ?w1")
      let ?fin = "case r of Inr ls \<Rightarrow> completed_record (dedupe ls) (toISOString e) | Inl msg \<Rightarrow> failed_record msg"
      have res: "snd (runScraper e jobId url m w) = (jobs_set jobId ?fin w2)\<lparr>browser := Closed\<rparr>"
        using launch None rw by (simp add: runScraper_def Let_def split: option.splits sum.splits)
      have "\<exists>k. 0 \<le> k \<and> (k \<le> m \<or> k = 0) \<and>
          history w2 = history ?w1 @ map (\<lambda>j. (jobs ?w1)(jobId \<mapsto> page_record j m)) [1..k] \<and>
          (\<forall>x. (jobs w2)(jobId \<mapsto> x) = (jobs w)(jobId \<mapsto> x))"
      proof (cases "goto e url")
        case (Some msg)
        with rw have "w2 = ?w1" by simp
        then show ?thesis by (intro exI[of _ 0]) (simp add: jobs_set_def)
      next
        case None
        with rw have "w2 = snd (scrape_pages e jobId m 1 [] ?w1)" by simp
        with scrape_pages_history[of 1 m e jobId "[]" ?w1] show ?thesis
          by (auto simp: jobs_set_def)
      qed
      then obtain k where k: "0 \<le> k" "k \<le> m \<or> k = 0"
        and h2: "history w2 = history ?w1 @ map (\<lambda>j. (jobs ?w1)(jobId \<mapsto> page_record j m)) [1..k]"
        and j2: "\<And>x. (jobs w2)(jobId \<mapsto> x) = (jobs w)(jobId \<mapsto> x)"
        by blast
      let ?recs = "running_record # map (\<lambda>j. page_record j m) [1..k] @ [?fin]"
      have "history (snd (runScraper e jobId url m w)) = history w @ map (\<lambda>j. (jobs w)(jobId \<mapsto> j)) ?recs"
        by (simp add: res h2 j2 jobs_set_def comp_def)
      moreover have "jobs (snd (runScraper e jobId url m w)) = (jobs w)(jobId \<mapsto> last ?recs)"
        by (simp add: res j2 jobs_set_def)
      moreover have "run_shape m ?recs"
        unfolding run_shape_def using k
        by (intro exI[of _ k] exI[of _ "[?fin]"]) (auto split: sum.splits)
      ultimately show ?thesis by blast
    qed
  qed
qed


lemma post_scrape_history:
  "\<exists>recs. history (snd (post_scrape e body w)) =
            history w @ map (\<lambda>j. (jobs w)(generateJobId e \<mapsto> j)) recs
      \<and> (recs = [] \<or> (\<exists>rs. recs = queued_record # rs \<and> run_shape (maxPages_of (limit_pages body)) rs))"
proof (cases "\<exists>url. originUrl body = Some url \<and> url \<noteq> []")
  case False
  then have "snd (post_scrape e body w) = w" by (auto simp: post_scrape_def split: option.splits)
  then show ?thesis by (intro exI[of _ "[]"]) simp
next
  case True
  then obtain url where url: "originUrl body = Some url" "url \<noteq> []" by blast
  let ?id = "generateJobId e"
  let ?m = "maxPages_of (limit_pages body)"
  let ?w1 = "jobs_set ?id queued_record w"
  have res: "snd (post_scrape e body w) = snd (runScraper e ?id url ?m ?w1)"
    using url by (simp add: post_scrape_def Let_def split: prod.splits)
  from runScraper_history[of e ?id url ?m ?w1] obtain rs where
    h: "history (snd (runScraper e ?id url ?m ?w1)) = history ?w1 @ map (\<lambda>j. (jobs ?w1)(?id \<mapsto> j)) rs"
    and sh: "run_shape ?m rs" by blast
  have "history (snd (post_scrape e body w)) = history w @ map (\<lambda>j. (jobs w)(?id \<mapsto> j)) (queued_record # rs)"
    unfolding res h by (simp add: jobs_set_def)
  with sh show ?thesis by blast
qed

lemma lifetime_shape:
  "lifetime e body w = [] \<or>
   (\<exists>rs. lifetime e body w = queued_record # rs \<and> run_shape (maxPages_of (limit_pages body)) rs)"
proof -
  from post_scrape_history[of e body w] obtain recs where
    h: "history (snd (post_scrape e body w)) = history w @ map (\<lambda>j. (jobs w)(generateJobId e \<mapsto> j)) recs"
    and r: "recs = [] \<or> (\<exists>rs. recs = queued_record # rs \<and> run_shape (maxPages_of (limit_pages body)) rs)"
    by blast
  have "lifetime e body w = recs" unfolding lifetime_def by (rule observed_append[OF h])
  with r show ?thesis by simp
qed

lemma page_records_progress:
  assumes "k \<le> m \<or> k = 0" "j \<in> set (map (\<lambda>j. page_record j m) [1..k])"
  shows "0 \<le> progress j \<and> progress j \<le> 100 \<and> status j = Running"
proof -
  from assms(2) obtain i where i: "1 \<le> i" "i \<le> k" "j = page_record i m" by auto
  with assms(1) have "i \<le> m" by auto
  with i progress_of_bounds[of i m] show ?thesis by (simp add: page_record_def)
qed

lemma page_records_sorted:
  assumes "k \<le> m \<or> k = 0"
  shows "sorted (map progress (map (\<lambda>j. page_record j m) [1..k]))"
proof -
  have "sorted_wrt (\<lambda>x y. progress_of x m \<le> progress_of y m) [1..k]"
  proof (rule sorted_wrt_mono_rel[of _ "(\<le>)"])
    fix x y assume xy: "x \<in> set [1..k]" "y \<in> set [1..k]" "x \<le> y"
    then have "0 < m" "1 \<le> x" "y \<le> m" using assms by auto
    then show "progress_of x m \<le> progress_of y m" using xy(3) by (intro progress_of_mono)
  next
    show "sorted_wrt (\<le>) [1..k]" by simp
  qed
  then show ?thesis by (simp add: sorted_map comp_def page_record_def)
qed

lemma run_shape_cases:
  assumes "run_shape m recs"
  obtains ps fin where "recs = running_record # ps @ fin"
    and "\<forall>j \<in> set ps. status j = Running \<and> 0 \<le> progress j \<and> progress j \<le> 100"
    and "sorted (map progress ps)"
    and "fin = [] \<or> (\<exists>ls stamp. fin = [completed_record ls stamp]) \<or> (\<exists>msg. fin = [failed_record msg])"
proof -
  from assms obtain k fin where recs: "recs = running_record # map (\<lambda>j. page_record j m) [1..k] @ fin"
    and k: "k \<le> m \<or> k = 0"
    and fin: "fin = [] \<or> (\<exists>ls stamp. fin = [completed_record ls stamp]) \<or> (\<exists>msg. fin = [failed_record msg])"
    unfolding run_shape_def by blast
  define ps where "ps = map (\<lambda>j. page_record j m) [1..k]"
  have "\<forall>j \<in> set ps. status j = Running \<and> 0 \<le> progress j \<and> progress j \<le> 100"
    unfolding ps_def using page_records_progress[OF k] by blast
  moreover have "sorted (map progress ps)" unfolding ps_def by (rule page_records_sorted[OF k])
  moreover have "recs = running_record # ps @ fin" unfolding ps_def by (rule recs)
  ultimately show ?thesis using fin that by blast
qed

lemma run_shape_sorted:
  assumes "run_shape m recs"
  shows "sorted (map progress (filter (\<lambda>j. status j \<noteq> Failed) recs))"
proof -
  from assms obtain ps fin where recs: "recs = running_record # ps @ fin"
    and ps: "\<forall>j \<in> set ps. status j = Running \<and> 0 \<le> progress j \<and> progress j \<le> 100"
    and srt: "sorted (map progress ps)"
    and fin: "fin = [] \<or> (\<exists>ls stamp. fin = [completed_record ls stamp]) \<or> (\<exists>msg. fin = [failed_record msg])"
    by (rule run_shape_cases)
  have keep: "filter (\<lambda>j. status j \<noteq> Failed) ps = ps"
    using ps by (intro filter_True) simp
  define fs where "fs = map progress (filter (\<lambda>j. status j \<noteq> Failed) fin)"
  have ff: "fs = [] \<or> fs = [100]"
    unfolding fs_def using fin by (auto simp: completed_record_def failed_record_def)
  have "map progress (filter (\<lambda>j. status j \<noteq> Failed) recs) = 0 # map progress ps @ fs"
    unfolding fs_def by (simp add: recs keep running_record_def)
  moreover have "sorted (0 # map progress ps @ fs)"
    using srt ps ff by (auto simp: sorted_append)
  ultimately show ?thesis by simp
qed

lemma run_shape_terminal_last:
  assumes "run_shape m recs" "n < length recs" "status (recs ! n) \<in> {Completed, Failed}"
  shows "Suc n = length recs"
proof -
  from assms(1) obtain ps fin where recs: "recs = running_record # ps @ fin"
    and ps: "\<forall>j \<in> set ps. status j = Running \<and> 0 \<le> progress j \<and> progress j \<le> 100"
    and fin: "fin = [] \<or> (\<exists>ls stamp. fin = [completed_record ls stamp]) \<or> (\<exists>msg. fin = [failed_record msg])"
    by (rule run_shape_cases)
  define body where "body = running_record # ps"
  have body: "\<forall>j \<in> set body. status j = Running"
    unfolding body_def using ps by (simp add: running_record_def)
  have r: "recs = body @ fin" by (simp add: recs body_def)
  have "\<not> n < length body"
  proof
    assume "n < length body"
    then have "recs ! n = body ! n" unfolding r by (simp only: nth_append if_True)
    moreover have "body ! n \<in> set body" using \<open>n < length body\<close> by (rule nth_mem)
    ultimately have "status (recs ! n) = Running" using body by simp
    with assms(3) show False by simp
  qed
  moreover have "length recs \<le> Suc (length body)" using fin unfolding r by auto
  ultimately show ?thesis using assms(2) by simp
qed

lemma run_shape_bounds:
  assumes "run_shape m recs" "j \<in> set recs"
  shows "0 \<le> progress j \<and> progress j \<le> 100 \<and> (status j = Failed \<longrightarrow> progress j = 0)"
proof -
  from assms(1) obtain ps fin where recs: "recs = running_record # ps @ fin"
    and ps: "\<forall>j \<in> set ps. status j = Running \<and> 0 \<le> progress j \<and> progress j \<le> 100"
    and fin: "fin = [] \<or> (\<exists>ls stamp. fin = [completed_record ls stamp]) \<or> (\<exists>msg. fin = [failed_record msg])"
    by (rule run_shape_cases)
  from assms(2) recs consider "j = running_record" | "j \<in> set ps" | "j \<in> set fin" by auto
  then show ?thesis
  proof cases
    case 1
    then show ?thesis by (simp add: running_record_def)
  next
    case 2
    with ps show ?thesis by simp
  next
    case 3
    with fin show ?thesis by (auto simp: completed_record_def failed_record_def)
  qed
qed

lemma lifetime_terminal_last:
  assumes "n < length (lifetime e body w)" "status (lifetime e body w ! n) \<in> {Completed, Failed}"
  shows "Suc n = length (lifetime e body w)"
proof -
  from assms(1) lifetime_shape[of e body w] obtain rs where l: "lifetime e body w = queued_record # rs"
    and sh: "run_shape (maxPages_of (limit_pages body)) rs" by auto
  show ?thesis
  proof (cases n)
    case 0
    with assms(2) show ?thesis by (simp add: l queued_record_def)
  next
    case (Suc n')
    with assms have "n' < length rs" "status (rs ! n') \<in> {Completed, Failed}" by (simp_all add: l)
    from run_shape_terminal_last[OF sh this] show ?thesis by (simp add: l Suc)
  qed
qed

lemma post_scrape_other_jobs:
  assumes "k \<noteq> generateJobId e"
    and "s \<in> set (drop (length (history w)) (history (snd (post_scrape e body w))))"
  shows "s k = jobs w k"
proof -
  from post_scrape_history[of e body w] obtain recs where
    h: "history (snd (post_scrape e body w)) = history w @ map (\<lambda>j. (jobs w)(generateJobId e \<mapsto> j)) recs"
    by blast
  from assms(2) obtain j where "s = (jobs w)(generateJobId e \<mapsto> j)" unfolding h by auto
  with assms(1) show ?thesis by simp
qed

lemma page_step_goes_on:
  assumes "goes_on (pages e i)" "i < m"
  shows "page_step e jobId m i acc w
         = (Continue (acc @ listings_of (pages e i)), jobs_set jobId (page_record i m) w)"
  using assms
  by (auto simp: page_step_def goes_on_def listings_of_def Let_def split: sum.splits option.splits)

lemma page_step_no_next:
  assumes "no_next (pages e i)" "i < m"
  shows "page_step e jobId m i acc w
         = (Break (acc @ listings_of (pages e i)), jobs_set jobId (page_record i m) w)"
  using assms
  by (auto simp: page_step_def no_next_def listings_of_def Let_def split: sum.splits option.splits)

lemma scrape_pages_early_stop:
  assumes "i \<le> k" "k < m" "\<forall>j. i \<le> j \<and> j < k \<longrightarrow> goes_on (pages e j)" "no_next (pages e k)"
  shows "scrape_pages e jobId m i acc w
         = (Inr (acc @ concat (map (\<lambda>j. listings_of (pages e j)) [i..k])),
            w\<lparr>jobs := (jobs w)(jobId \<mapsto> page_record k m),
              history := history w @ map (\<lambda>j. (jobs w)(jobId \<mapsto> page_record j m)) [i..k]\<rparr>)"
  using assms
proof (induction "nat (k - i)" arbitrary: i acc w)
  case 0
  then have ik: "i = k" by simp
  show ?case
    unfolding ik using "0.prems"(2,4)
    by (subst scrape_pages.simps) (simp add: page_step_no_next jobs_set_def)
next
  case (Suc n)
  then have ik: "i < k" by simp
  then have go: "goes_on (pages e i)" using Suc.prems(3) by simp
  have im: "i < m" using ik Suc.prems(2) by simp
  let ?w1 = "jobs_set jobId (page_record i m) w"
  have step: "scrape_pages e jobId m i acc w
        = scrape_pages e jobId m (i + 1) (acc @ listings_of (pages e i)) ?w1"
    using im by (subst scrape_pages.simps) (simp add: page_step_goes_on[OF go im])
  have n: "n = nat (k - (i + 1))" using Suc.hyps(2) by simp
  have rest: "\<forall>j. i + 1 \<le> j \<and> j < k \<longrightarrow> goes_on (pages e j)" using Suc.prems(3) by simp
  have up: "[i..k] = i # [i + 1..k]" using ik by (simp add: upto_rec1)
  have "i + 1 \<le> k" using ik by simp
  from Suc.hyps(1)[OF n this Suc.prems(2) rest Suc.prems(4)]
  show ?case unfolding step by (simp add: up jobs_set_def)
qed

lemma run_one_page:
  assumes "launch e = None" "newPage e = None" "goto e url = None"
  shows "history (snd (runScraper e jobId url 1 w))
         = history w @ map (\<lambda>j. (jobs w)(jobId \<mapsto> j))
             [running_record, page_record 1 1,
              (case settleDelay (pages e 1) of Some msg \<Rightarrow> failed_record msg
               | None \<Rightarrow> (case evaluate (pages e 1) of Inl msg \<Rightarrow> failed_record msg
                 | Inr links \<Rightarrow> completed_record (dedupe (pageListings links)) (toISOString e)))]"
  using assms
  by (simp add: runScraper_def scrape_pages.simps page_step_def jobs_set_def Let_def
      split: option.splits sum.splits)

lemmas run_eval =
  lifetime_def observed_def post_scrape_def runScraper_def scrape_pages.simps page_step_def
  jobs_set_def generateJobId_def List.map_filter_def demo_env_def demo_page_def empty_world_def
  Let_def

lemma lifetime_failing_page:
  "lifetime (demo_env\<lparr>pages := \<lambda>i. demo_page\<lparr>evaluate := Inl ''Execution context was destroyed''\<rparr>\<rparr>)
     \<lparr>originUrl = Some ''https://example.test/listings'', limit_pages = Undefined\<rparr> empty_world
   = [queued_record, running_record, page_record 1 1, failed_record ''Execution context was destroyed'']"
  by (simp add: run_eval)

lemma progress_of_1_1: "progress_of 1 1 = 100"
  using progress_of_full[of 1] by simp

subsection \<open>Failure of the session acquisition\<close>

text \<open>
  C1. The claim: when the launch of the browser or the opening of its page throws, the job's
  entry becomes \<open>Failed\<close> with the error message, progress 0. The code does not do this.
  Lines 21 to 31 stand before the \<open>try\<close> of line 34, so the error reaches neither the
  \<open>catch\<close> that records failures (lines 113 to 120) nor the \<open>finally\<close>: the promise of
  the run is rejected, the entry stays the \<open>running\<close> record of line 18 with \<open>error\<close>
  null, nothing else is ever written to it, and a browser that was launched stays open.
\<close>

theorem acquisition_failure_leaves_job_running:
  assumes "launch e = Some msg \<or> (launch e = None \<and> newPage e = Some msg)"
  shows "fst (runScraper e jobId url m w) = Rejected msg
       \<and> jobs (snd (runScraper e jobId url m w)) jobId = Some running_record
       \<and> observed jobId w (snd (runScraper e jobId url m w)) = [running_record]
       \<and> browser (snd (runScraper e jobId url m w)) = (if launch e = None then Open else browser w)"
  using assms
  by (auto simp: runScraper_def Let_def jobs_set_def observed_def List.map_filter_def)

text \<open>The same at a launch that fails.\<close>

theorem acquisition_failure_leaves_job_running_witness:
  "launch (demo_env\<lparr>launch := Some ''Failed to launch the browser process''\<rparr>)
     = Some ''Failed to launch the browser process''
   \<and> fst (runScraper (demo_env\<lparr>launch := Some ''Failed to launch the browser process''\<rparr>)
            ''job_1'' ''https://example.test/listings'' 1 empty_world)
       = Rejected ''Failed to launch the browser process''
   \<and> map_option status
        (jobs (snd (runScraper (demo_env\<lparr>launch := Some ''Failed to launch the browser process''\<rparr>)
            ''job_1'' ''https://example.test/listings'' 1 empty_world)) ''job_1'') = Some Running
   \<and> map_option error
        (jobs (snd (runScraper (demo_env\<lparr>launch := Some ''Failed to launch the browser process''\<rparr>)
            ''job_1'' ''https://example.test/listings'' 1 empty_world)) ''job_1'') = Some None"
  using acquisition_failure_leaves_job_running[of "demo_env\<lparr>launch := Some ''Failed to launch the browser process''\<rparr>"
      "''Failed to launch the browser process''" "''job_1''" "''https://example.test/listings''" 1 empty_world]
  by (simp add: demo_env_def running_record_def)

subsection \<open>Progress over the lifetime of a job\<close>

text \<open>
  C2, as the code has it. Over the successive entries of a job, from submission to the last
  write of its run, progress always lies between 0 and 100, and it never decreases from one
  entry to a later one as long as the job has not failed; the entry written on failure has
  progress 0 (line 117), whatever the progress before it.
\<close>

theorem progress_bounded_and_monotone_until_failure:
  "(\<forall>j \<in> set (lifetime e body w). 0 \<le> progress j \<and> progress j \<le> 100)
   \<and> sorted (map progress (filter (\<lambda>j. status j \<noteq> Failed) (lifetime e body w)))
   \<and> (\<forall>j \<in> set (lifetime e body w). status j = Failed \<longrightarrow> progress j = 0)"
proof -
  from lifetime_shape[of e body w] consider "lifetime e body w = []"
    | "\<exists>rs. lifetime e body w = queued_record # rs \<and> run_shape (maxPages_of (limit_pages body)) rs"
    by blast
  then show ?thesis
  proof cases
    case 1
    then show ?thesis by simp
  next
    case 2
    then obtain rs where l: "lifetime e body w = queued_record # rs"
      and sh: "run_shape (maxPages_of (limit_pages body)) rs" by blast
    have b: "\<forall>j \<in> set rs. 0 \<le> progress j \<and> progress j \<le> 100 \<and> (status j = Failed \<longrightarrow> progress j = 0)"
      using run_shape_bounds[OF sh] by blast
    have s: "sorted (map progress (filter (\<lambda>j. status j \<noteq> Failed) rs))" by (rule run_shape_sorted[OF sh])
    have "sorted (0 # map progress (filter (\<lambda>j. status j \<noteq> Failed) rs))"
      using s b by auto
    then show ?thesis using b by (simp add: l queued_record_def)
  qed
qed

text \<open>
  C2 as stated fails: with a page limit of 1 and an extraction that throws on page 1, the
  successive progress values are 0, 0, 100, 0.
\<close>

theorem progress_drops_on_failure:
  "map progress
     (lifetime (demo_env\<lparr>pages := \<lambda>i. demo_page\<lparr>evaluate := Inl ''Execution context was destroyed''\<rparr>\<rparr>)
        \<lparr>originUrl = Some ''https://example.test/listings'', limit_pages = Undefined\<rparr> empty_world)
     = [0, 0, 100, 0]
   \<and> \<not> sorted (map progress
     (lifetime (demo_env\<lparr>pages := \<lambda>i. demo_page\<lparr>evaluate := Inl ''Execution context was destroyed''\<rparr>\<rparr>)
        \<lparr>originUrl = Some ''https://example.test/listings'', limit_pages = Undefined\<rparr> empty_world))"
  by (simp add: lifetime_failing_page queued_record_def running_record_def page_record_def
      failed_record_def progress_of_1_1)

text \<open>The amended statement at the same run, whose last entry is the failed one.\<close>

theorem progress_bounded_and_monotone_until_failure_witness:
  "failed_record ''Execution context was destroyed'' \<in> set
     (lifetime (demo_env\<lparr>pages := \<lambda>i. demo_page\<lparr>evaluate := Inl ''Execution context was destroyed''\<rparr>\<rparr>)
        \<lparr>originUrl = Some ''https://example.test/listings'', limit_pages = Undefined\<rparr> empty_world)
   \<and> status (failed_record ''Execution context was destroyed'') = Failed
   \<and> progress (failed_record ''Execution context was destroyed'') = 0
   \<and> sorted (map progress (filter (\<lambda>j. status j \<noteq> Failed)
     (lifetime (demo_env\<lparr>pages := \<lambda>i. demo_page\<lparr>evaluate := Inl ''Execution context was destroyed''\<rparr>\<rparr>)
        \<lparr>originUrl = Some ''https://example.test/listings'', limit_pages = Undefined\<rparr> empty_world)))"
  using progress_bounded_and_monotone_until_failure[of "demo_env\<lparr>pages := \<lambda>i. demo_page\<lparr>evaluate := Inl ''Execution context was destroyed''\<rparr>\<rparr>"
        "\<lparr>originUrl = Some ''https://example.test/listings'', limit_pages = Undefined\<rparr>" empty_world]
  by (simp add: lifetime_failing_page failed_record_def)

subsection \<open>Release of the browser\<close>

text \<open>
  C3. In every run in which the browser session was acquired (the launch and the opening of the
  page both returned), the browser has been closed when the run finishes: whatever the page
  driver answers afterwards, whether the run completes, stops paginating early or throws. The
  run always finishes: \<open>runScraper\<close> is a total function of the driver's answers.
  \<open>Closed\<close> records that \<open>browser.close()\<close> of line 122 has been called.
\<close>

theorem browser_closed_on_every_exit:
  assumes "launch e = None" "newPage e = None"
  shows "browser (snd (runScraper e jobId url m w)) = Closed"
  using assms by (simp add: runScraper_def Let_def split: option.splits prod.splits)

text \<open>
  The theorem at a run that completes, at one that stops at page 1 for want of a next-page
  control, and at one whose navigation throws.
\<close>

theorem browser_closed_on_every_exit_witness:
  "launch demo_env = None \<and> newPage demo_env = None
   \<and> browser (snd (runScraper demo_env ''job_1'' ''https://example.test/listings'' 3 empty_world)) = Closed
   \<and> browser (snd (runScraper (demo_env\<lparr>pages := \<lambda>i. demo_page\<lparr>isVisible := Inr False\<rparr>\<rparr>)
        ''job_1'' ''https://example.test/listings'' 3 empty_world)) = Closed
   \<and> browser (snd (runScraper (demo_env\<lparr>goto := \<lambda>url. Some ''net::ERR_NAME_NOT_RESOLVED''\<rparr>)
        ''job_1'' ''https://example.test/listings'' 3 empty_world)) = Closed"
  using browser_closed_on_every_exit[of demo_env "''job_1''" "''https://example.test/listings''" 3 empty_world]
    browser_closed_on_every_exit[of "demo_env\<lparr>pages := \<lambda>i. demo_page\<lparr>isVisible := Inr False\<rparr>\<rparr>"
        "''job_1''" "''https://example.test/listings''" 3 empty_world]
    browser_closed_on_every_exit[of "demo_env\<lparr>goto := \<lambda>url. Some ''net::ERR_NAME_NOT_RESOLVED''\<rparr>"
        "''job_1''" "''https://example.test/listings''" 3 empty_world]
  by (simp add: demo_env_def)

subsection \<open>Early end of the pagination\<close>

text \<open>
  C4, as the code has it. When pages 1 to \<open>k - 1\<close> go through and page \<open>k\<close>, before the
  page limit, shows no next-page control, the loop ends there without an error and the job
  reaches \<open>Completed\<close> with the deduplicated listings of pages 1 to \<open>k\<close>. The last
  \<open>running\<close> entry, written for page \<open>k\<close>, carries \<open>totalPages\<close> equal to the requested
  maximum and \<open>currentPage = k\<close>; the final \<open>completed\<close> entry (lines 102 to 109) is a
  new object without a \<open>totalPages\<close> field.
\<close>

theorem early_stop_completes_without_totalPages:
  assumes "launch e = None" "newPage e = None" "goto e url = None"
    and "1 \<le> k" "k < m" "\<forall>j. 1 \<le> j \<and> j < k \<longrightarrow> goes_on (pages e j)" "no_next (pages e k)"
  shows "observed jobId w (snd (runScraper e jobId url m w))
           = running_record # map (\<lambda>j. page_record j m) [1..k]
             @ [completed_record (dedupe (concat (map (\<lambda>j. listings_of (pages e j)) [1..k])))
                  (toISOString e)]
       \<and> jobs (snd (runScraper e jobId url m w)) jobId
           = Some (completed_record (dedupe (concat (map (\<lambda>j. listings_of (pages e j)) [1..k])))
                  (toISOString e))
       \<and> map_option status (jobs (snd (runScraper e jobId url m w)) jobId) = Some Completed
       \<and> map_option error (jobs (snd (runScraper e jobId url m w)) jobId) = Some None
       \<and> map_option totalPages (jobs (snd (runScraper e jobId url m w)) jobId) = Some None
       \<and> totalPages (page_record k m) = Some m \<and> currentPage (page_record k m) = Some k"
proof -
  let ?w1 = "(jobs_set jobId running_record w)\<lparr>browser := Open\<rparr>"
  let ?fin = "completed_record (dedupe (concat (map (\<lambda>j. listings_of (pages e j)) [1..k]))) (toISOString e)"
  note loop = scrape_pages_early_stop[OF assms(4,5,6,7), of jobId "[]" ?w1]
  have r: "snd (runScraper e jobId url m w)
      = (jobs_set jobId ?fin
          (?w1\<lparr>jobs := (jobs ?w1)(jobId \<mapsto> page_record k m),
               history := history ?w1 @ map (\<lambda>j. (jobs ?w1)(jobId \<mapsto> page_record j m)) [1..k]\<rparr>))
        \<lparr>browser := Closed\<rparr>"
    using assms(1,2,3) by (simp add: runScraper_def Let_def loop split: option.splits)
  have h: "history (snd (runScraper e jobId url m w))
      = history w @ map (\<lambda>j. (jobs w)(jobId \<mapsto> j)) (running_record # map (\<lambda>j. page_record j m) [1..k] @ [?fin])"
    unfolding r by (simp add: jobs_set_def comp_def)
  have j: "jobs (snd (runScraper e jobId url m w)) jobId = Some ?fin"
    unfolding r by (simp add: jobs_set_def)
  show ?thesis
    using observed_append[OF h] j by (simp add: completed_record_def page_record_def)
qed

text \<open>
  C4 as stated fails in its second half: after a submission with a limit of 3 pages whose first
  page shows no next-page control, the entry of the job is \<open>Completed\<close> and has no
  \<open>totalPages\<close>, so it is not the requested maximum 3.
\<close>

theorem final_state_has_no_totalPages:
  "map_option status
     (jobs (snd (post_scrape (demo_env\<lparr>pages := \<lambda>i. demo_page\<lparr>isVisible := Inr False\<rparr>\<rparr>)
        \<lparr>originUrl = Some ''https://example.test/listings'', limit_pages = Num 3\<rparr> empty_world))
        (generateJobId demo_env)) = Some Completed
   \<and> map_option totalPages
     (jobs (snd (post_scrape (demo_env\<lparr>pages := \<lambda>i. demo_page\<lparr>isVisible := Inr False\<rparr>\<rparr>)
        \<lparr>originUrl = Some ''https://example.test/listings'', limit_pages = Num 3\<rparr> empty_world))
        (generateJobId demo_env)) \<noteq> Some (Some 3)"
  by (simp add: run_eval completed_record_def)

text \<open>The amended statement at a run of limit 3 that stops at page 2.\<close>

theorem early_stop_completes_without_totalPages_witness:
  "launch demo_env = None \<and> newPage demo_env = None
   \<and> goto demo_env ''https://example.test/listings'' = None \<and> (1::int) \<le> 2 \<and> (2::int) < 3
   \<and> goes_on (pages (demo_env\<lparr>pages := \<lambda>i. if i = 2 then demo_page\<lparr>isVisible := Inr False\<rparr> else demo_page\<rparr>) 1)
   \<and> no_next (pages (demo_env\<lparr>pages := \<lambda>i. if i = 2 then demo_page\<lparr>isVisible := Inr False\<rparr> else demo_page\<rparr>) 2)
   \<and> map_option status
        (jobs (snd (runScraper
           (demo_env\<lparr>pages := \<lambda>i. if i = 2 then demo_page\<lparr>isVisible := Inr False\<rparr> else demo_page\<rparr>)
           ''job_1'' ''https://example.test/listings'' 3 empty_world)) ''job_1'') = Some Completed
   \<and> map_option totalPages
        (jobs (snd (runScraper
           (demo_env\<lparr>pages := \<lambda>i. if i = 2 then demo_page\<lparr>isVisible := Inr False\<rparr> else demo_page\<rparr>)
           ''job_1'' ''https://example.test/listings'' 3 empty_world)) ''job_1'') = Some None
   \<and> totalPages (page_record 2 3) = Some 3 \<and> currentPage (page_record 2 3) = Some 2"
proof -
  let ?e = "demo_env\<lparr>pages := \<lambda>i. if i = 2 then demo_page\<lparr>isVisible := Inr False\<rparr> else demo_page\<rparr>"
  have a: "launch ?e = None" "newPage ?e = None" "goto ?e ''https://example.test/listings'' = None"
    by (simp_all add: demo_env_def)
  have b: "(1::int) \<le> 2" "(2::int) < 3" by simp_all
  have c: "\<forall>j. 1 \<le> j \<and> j < 2 \<longrightarrow> goes_on (pages ?e j)"
    by (simp add: demo_env_def demo_page_def goes_on_def)
  have d: "no_next (pages ?e 2)" by (simp add: demo_env_def demo_page_def no_next_def)
  note r = early_stop_completes_without_totalPages[OF a b c d, of "''job_1''" empty_world]
  from r have s: "map_option status (jobs (snd (runScraper ?e ''job_1''
      ''https://example.test/listings'' 3 empty_world)) ''job_1'') = Some Completed" by blast
  from r have t: "map_option totalPages (jobs (snd (runScraper ?e ''job_1''
      ''https://example.test/listings'' 3 empty_world)) ''job_1'') = Some None" by blast
  from r have p: "totalPages (page_record 2 3) = Some 3" "currentPage (page_record 2 3) = Some 2"
    by blast+
  have a': "launch demo_env = None" "newPage demo_env = None"
    "goto demo_env ''https://example.test/listings'' = None"
    by (simp_all add: demo_env_def)
  have c': "goes_on (pages ?e 1)" by (simp add: demo_env_def demo_page_def goes_on_def)
  show ?thesis using a' b c' d s t p by blast
qed

subsection \<open>Terminal states\<close>

text \<open>
  C5. In the successive entries of a job, an entry with status \<open>Completed\<close> or \<open>Failed\<close>
  is the last one its run writes, and every entry before it is \<open>Queued\<close> or \<open>Running\<close>:
  a terminal state is entered from \<open>Queued\<close> or \<open>Running\<close> only and no later write of
  the run changes it. The submission and the run of a job write to no entry but the job's own,
  so they change the status of no other job either.
\<close>

theorem terminal_status_never_left:
  "(\<forall>n < length (lifetime e body w).
      status (lifetime e body w ! n) \<in> {Completed, Failed} \<longrightarrow>
        Suc n = length (lifetime e body w)
        \<and> (\<forall>n' < n. status (lifetime e body w ! n') \<in> {Queued, Running}))
   \<and> (\<forall>k s. k \<noteq> generateJobId e \<and> s \<in> set (drop (length (history w)) (history (snd (post_scrape e body w))))
         \<longrightarrow> s k = jobs w k)"
proof -
  have a: "Suc n = length (lifetime e body w) \<and> (\<forall>n' < n. status (lifetime e body w ! n') \<in> {Queued, Running})"
    if n: "n < length (lifetime e body w)" and t: "status (lifetime e body w ! n) \<in> {Completed, Failed}" for n
  proof
    show "Suc n = length (lifetime e body w)" by (rule lifetime_terminal_last[OF n t])
    show "\<forall>n' < n. status (lifetime e body w ! n') \<in> {Queued, Running}"
    proof (intro allI impI)
      fix n' assume "n' < n"
      then have "n' < length (lifetime e body w)" "Suc n' \<noteq> length (lifetime e body w)" using n by auto
      with lifetime_terminal_last[of n' e body w] have "status (lifetime e body w ! n') \<notin> {Completed, Failed}" by blast
      then show "status (lifetime e body w ! n') \<in> {Queued, Running}"
        by (cases "status (lifetime e body w ! n')") auto
    qed
  qed
  have b: "s k = jobs w k" if "k \<noteq> generateJobId e \<and> s \<in> set (drop (length (history w)) (history (snd (post_scrape e body w))))" for k s
    using that post_scrape_other_jobs by blast
  show ?thesis using a b by blast
qed

text \<open>The theorem at the run that fails on page 1: the fourth entry is the terminal one.\<close>

theorem terminal_status_never_left_witness:
  "(3::nat) < length (lifetime (demo_env\<lparr>pages := \<lambda>i. demo_page\<lparr>evaluate := Inl ''Execution context was destroyed''\<rparr>\<rparr>)
        \<lparr>originUrl = Some ''https://example.test/listings'', limit_pages = Undefined\<rparr> empty_world)
   \<and> status (lifetime (demo_env\<lparr>pages := \<lambda>i. demo_page\<lparr>evaluate := Inl ''Execution context was destroyed''\<rparr>\<rparr>)
        \<lparr>originUrl = Some ''https://example.test/listings'', limit_pages = Undefined\<rparr> empty_world ! 3) \<in> {Completed, Failed}
   \<and> Suc 3 = length (lifetime (demo_env\<lparr>pages := \<lambda>i. demo_page\<lparr>evaluate := Inl ''Execution context was destroyed''\<rparr>\<rparr>)
        \<lparr>originUrl = Some ''https://example.test/listings'', limit_pages = Undefined\<rparr> empty_world)
   \<and> status (lifetime (demo_env\<lparr>pages := \<lambda>i. demo_page\<lparr>evaluate := Inl ''Execution context was destroyed''\<rparr>\<rparr>)
        \<lparr>originUrl = Some ''https://example.test/listings'', limit_pages = Undefined\<rparr> empty_world ! 2) \<in> {Queued, Running}
   \<and> ''job_0'' \<noteq> generateJobId demo_env
   \<and> last (history (snd (post_scrape demo_env
        \<lparr>originUrl = Some ''https://example.test/listings'', limit_pages = Undefined\<rparr>
        (jobs_set ''job_0'' (failed_record ''Timeout 60000ms exceeded'') empty_world)))) ''job_0''
       = Some (failed_record ''Timeout 60000ms exceeded'')"
proof -
  let ?e = "demo_env\<lparr>pages := \<lambda>i. demo_page\<lparr>evaluate := Inl ''Execution context was destroyed''\<rparr>\<rparr>"
  let ?body = "\<lparr>originUrl = Some ''https://example.test/listings'', limit_pages = Undefined\<rparr>"
  let ?l = "lifetime ?e ?body empty_world"
  let ?w = "jobs_set ''job_0'' (failed_record ''Timeout 60000ms exceeded'') empty_world"
  have a: "(3::nat) < length ?l" by (simp add: lifetime_failing_page)
  have b: "status (?l ! 3) \<in> {Completed, Failed}"
    by (simp add: lifetime_failing_page failed_record_def)
  from terminal_status_never_left[of ?e ?body empty_world] a b
  have cd: "Suc 3 = length ?l \<and> (\<forall>n' < 3. status (?l ! n') \<in> {Queued, Running})" by blast
  then have c: "Suc 3 = length ?l" by (rule conjunct1)
  from cd have "\<forall>n' < 3. status (?l ! n') \<in> {Queued, Running}" by (rule conjunct2)
  then have "(2::nat) < 3 \<longrightarrow> status (?l ! 2) \<in> {Queued, Running}" by (rule spec)
  then have d: "status (?l ! 2) \<in> {Queued, Running}" by simp
  have k: "''job_0'' \<noteq> generateJobId demo_env" by (simp add: generateJobId_def demo_env_def)
  have m: "last (history (snd (post_scrape demo_env ?body ?w)))
      \<in> set (drop (length (history ?w)) (history (snd (post_scrape demo_env ?body ?w))))"
    by (simp add: run_eval)
  from terminal_status_never_left[of demo_env ?body ?w] k m
  have "last (history (snd (post_scrape demo_env ?body ?w))) ''job_0'' = jobs ?w ''job_0''"
    by blast
  then have e: "last (history (snd (post_scrape demo_env ?body ?w))) ''job_0''
      = Some (failed_record ''Timeout 60000ms exceeded'')"
    by (simp add: jobs_set_def)
  show ?thesis using a b c d k e by blast
qed

subsection \<open>The default page limit\<close>

text \<open>
  C9. A submission whose \<open>limit_pages\<close> is absent, \<open>null\<close> or 0 runs with a page limit
  of exactly 1. When the session is acquired and the navigation succeeds, page 1 is scraped and
  no other page: the entries of the job are the queued, the running and the page-1 record and
  one final record, which holds the deduplicated listings of page 1 when its extraction
  succeeds.
\<close>

theorem falsy_limit_means_one_page:
  assumes "\<not> truthy (limit_pages body)" "originUrl body = Some url" "url \<noteq> []"
  shows "maxPages_of (limit_pages body) = 1
     \<and> snd (post_scrape e body w)
         = snd (runScraper e (generateJobId e) url 1 (jobs_set (generateJobId e) queued_record w))
     \<and> (launch e = None \<and> newPage e = None \<and> goto e url = None \<longrightarrow>
          length (lifetime e body w) = 4
          \<and> take 3 (lifetime e body w) = [queued_record, running_record, page_record 1 1]
          \<and> (\<forall>links. settleDelay (pages e 1) = None \<and> evaluate (pages e 1) = Inr links \<longrightarrow>
                lifetime e body w ! 3
                  = completed_record (dedupe (pageListings links)) (toISOString e)))"
proof -
  have m: "maxPages_of (limit_pages body) = 1"
    using assms(1) by (cases "limit_pages body") auto
  let ?id = "generateJobId e"
  let ?w1 = "jobs_set ?id queued_record w"
  have res: "snd (post_scrape e body w) = snd (runScraper e ?id url 1 ?w1)"
    using assms(2,3) m by (simp add: post_scrape_def Let_def split: prod.splits)
  have run: "length (lifetime e body w) = 4
          \<and> take 3 (lifetime e body w) = [queued_record, running_record, page_record 1 1]
          \<and> (\<forall>links. settleDelay (pages e 1) = None \<and> evaluate (pages e 1) = Inr links \<longrightarrow>
                lifetime e body w ! 3
                  = completed_record (dedupe (pageListings links)) (toISOString e))"
    if ok: "launch e = None \<and> newPage e = None \<and> goto e url = None"
  proof -
    from ok have a: "launch e = None" "newPage e = None" "goto e url = None" by simp_all
    let ?fin = "case settleDelay (pages e 1) of Some msg \<Rightarrow> failed_record msg
               | None \<Rightarrow> (case evaluate (pages e 1) of Inl msg \<Rightarrow> failed_record msg
                 | Inr links \<Rightarrow> completed_record (dedupe (pageListings links)) (toISOString e))"
    have "history (snd (post_scrape e body w))
        = history w @ map (\<lambda>j. (jobs w)(?id \<mapsto> j)) [queued_record, running_record, page_record 1 1, ?fin]"
      unfolding res run_one_page[OF a, of ?id ?w1] by (simp add: jobs_set_def)
    then have l: "lifetime e body w = [queued_record, running_record, page_record 1 1, ?fin]"
      unfolding lifetime_def by (rule observed_append)
    show ?thesis unfolding l by simp
  qed
  show ?thesis using m res run by blast
qed

text \<open>The theorem at \<open>limit_pages = 0\<close>.\<close>

theorem falsy_limit_means_one_page_witness:
  "\<not> truthy (Num 0) \<and> \<not> truthy Null \<and> \<not> truthy Undefined
   \<and> maxPages_of (Num 0) = 1
   \<and> launch demo_env = None \<and> newPage demo_env = None
   \<and> goto demo_env ''https://example.test/listings'' = None
   \<and> settleDelay (pages demo_env 1) = None \<and> evaluate (pages demo_env 1) = Inr [demo_anchor]
   \<and> take 3 (lifetime demo_env \<lparr>originUrl = Some ''https://example.test/listings'', limit_pages = Num 0\<rparr> empty_world)
       = [queued_record, running_record, page_record 1 1]
   \<and> lifetime demo_env \<lparr>originUrl = Some ''https://example.test/listings'', limit_pages = Num 0\<rparr> empty_world ! 3
       = completed_record (dedupe (pageListings [demo_anchor])) (toISOString demo_env)"
  using falsy_limit_means_one_page[of "\<lparr>originUrl = Some ''https://example.test/listings'', limit_pages = Num 0\<rparr>"
      "''https://example.test/listings''" demo_env empty_world]
  by (simp add: demo_env_def demo_page_def)

subsection \<open>Full progress on a running job\<close>

text \<open>
  C10. In a run with page limit 1 that reaches its loop, the entry written for page 1 has
  status \<open>running\<close> and progress 100, and a poll of the Job Store after that write is
  answered with status \<open>running\<close> and progress 100: progress 100 does not imply
  \<open>Completed\<close>.
\<close>

theorem single_page_progress_100_while_running:
  assumes "launch e = None" "newPage e = None" "goto e url = None"
  shows "observed jobId w (snd (runScraper e jobId url 1 w)) ! 1 = page_record 1 1
       \<and> status (page_record 1 1) = Running \<and> progress (page_record 1 1) = 100
       \<and> get_job (history (snd (runScraper e jobId url 1 w)) ! (length (history w) + 1)) jobId
           = Pending Running 100 (Some 1) (Some 1)"
proof -
  note h = run_one_page[OF assms, of jobId w]
  have p: "progress_of 1 1 = 100" using progress_of_full[of 1] by simp
  have "observed jobId w (snd (runScraper e jobId url 1 w)) ! 1 = page_record 1 1"
    by (simp add: observed_append[OF h])
  moreover have "status (page_record 1 1) = Running \<and> progress (page_record 1 1) = 100"
    by (simp add: page_record_def p)
  moreover have "history (snd (runScraper e jobId url 1 w)) ! (length (history w) + 1)
      = (jobs w)(jobId \<mapsto> page_record 1 1)"
    unfolding h by (simp add: nth_append)
  ultimately show ?thesis by (simp add: get_job_def page_record_def)
qed

text \<open>The theorem at the concrete driver.\<close>

theorem single_page_progress_100_while_running_witness:
  "launch demo_env = None \<and> newPage demo_env = None
   \<and> goto demo_env ''https://example.test/listings'' = None
   \<and> get_job (history (snd (runScraper demo_env ''job_1'' ''https://example.test/listings'' 1
                 empty_world)) ! 1) ''job_1''
       = Pending Running 100 (Some 1) (Some 1)"
  using single_page_progress_100_while_running[of demo_env "''https://example.test/listings''" "''job_1''" empty_world]
  by (simp add: demo_env_def empty_world_def)

end
